theory Spec2Isabelle
  imports Main "HOL-Library.Word"
begin

section \<open>Data model\<close>

text \<open>
  The threshold secret-sharing code of package \<open>multiparty\<close>: the \<open>Thresholdizer\<close>
  (Shamir polynomial generation, share evaluation, aggregation) and the \<open>Combiner\<close>
  (Lagrange coefficients, additive shares).

  A \<open>ShamirPublicPoint\<close> is a \<open>uint64\<close>. A \<open>ring.Poly\<close> is its matrix \<open>Coeffs\<close>: one
  row (limb) per modulus of the chain, one residue per coefficient. A \<open>ringqp.Poly\<close> is
  the pair of its \<open>Q\<close> and \<open>P\<close> parts. A \<open>ring.RNSScalar\<close> is one residue per modulus.
  The share, key and polynomial structs only wrap these values:
  \<open>ShamirSecretShareQP\<close> and \<open>rlwe.SecretKey\<close> are a \<open>ringqp.Poly\<close>,
  \<open>ShamirSecretShareQ\<close>, \<open>SmudgeError\<close> and \<open>KeySwitchShare\<close> are a \<open>ring.Poly\<close>,
  \<open>ShamirPolynomialQ\<close> and \<open>ShamirPolynomialQP\<close> are the vector \<open>Value\<close> of coefficients.
\<close>

type_synonym ShamirPublicPoint = "64 word"
type_synonym RNSScalar = "nat list"
type_synonym Poly = "nat list list"

record PolyQP =
  Q :: Poly
  P :: Poly

type_synonym ShamirPolynomialQ = "Poly list"
type_synonym ShamirPolynomialQP = "PolyQP list"
type_synonym ShamirSecretShareQ = Poly
type_synonym ShamirSecretShareQP = PolyQP

text \<open>
  The three errors the code returns, under the names of the specification:
  \<open>threshold should be >= 1\<close>, \<open>cannot AggregateShares: shares level do not match\<close> and
  \<open>cannot GenAdditiveShare: Not enough active players to combine threshold shares\<close>.
\<close>

datatype error = InvalidThreshold | LevelMismatch | InsufficientParties

text \<open>
  A method with an output argument and an \<open>error\<close> result either returns, with its
  error value (\<open>None\<close> is \<open>nil\<close>) and the final content of the output argument, or
  does not return at all (a run-time panic of Go, the provider-level fault of the
  specification).
\<close>

datatype 'a outcome = Return "error option" 'a | Fault

section \<open>The ring arithmetic provider\<close>

text \<open>
  Modelled from the spec: packages \<open>ring\<close> and \<open>ring/ringqp\<close> (the ring arithmetic
  provider) are not among the source files; only their calls are. The definitions of
  this section follow sections 4 and 6 of the specification: a ring is a chain of prime
  moduli over polynomials of a fixed degree, every operation works limb by limb, a
  scalar in Montgomery form is the residue multiplied by the radix \<open>2^64\<close>, and a limb
  is inverted in its multiplicative group (by the exponent \<open>q - 2\<close>). A ring value
  stands for the ring at its current level: \<open>ModuliChain\<close> lists the active moduli. An
  operation that indexes a limb its operand does not have does not return.
\<close>

record Ring =
  ModuliChain :: "nat list"
  RingDegree :: nat

record RingQP =
  RingQ :: Ring
  RingP :: "Ring option"

definition MForm :: "nat \<Rightarrow> nat \<Rightarrow> nat" where
  "MForm a q = (a * 2 ^ 64) mod q"

definition RInv :: "nat \<Rightarrow> nat" where
  "RInv q = (2 ^ 64) ^ (q - 2) mod q"

definition MRed :: "nat \<Rightarrow> nat \<Rightarrow> nat \<Rightarrow> nat" where
  "MRed x y q = (x * y * RInv q) mod q"

primrec ModexpMontgomery :: "nat \<Rightarrow> nat \<Rightarrow> nat \<Rightarrow> nat" where
  "ModexpMontgomery x 0 q = MForm 1 q"
| "ModexpMontgomery x (Suc e) q = MRed (ModexpMontgomery x e q) x q"

definition Level :: "Poly \<Rightarrow> int" where
  "Level p = int (length p) - 1"

definition LevelQ :: "PolyQP \<Rightarrow> int" where
  "LevelQ p = Level (Q p)"

definition LevelP :: "PolyQP \<Rightarrow> int" where
  "LevelP p = Level (P p)"

subsection \<open>One chain: package ring\<close>

definition ring_NewPoly :: "Ring \<Rightarrow> Poly" where
  "ring_NewPoly r = replicate (length (ModuliChain r)) (replicate (RingDegree r) 0)"

definition ring_NewRNSScalar :: "Ring \<Rightarrow> RNSScalar" where
  "ring_NewRNSScalar r = replicate (length (ModuliChain r)) 0"

definition ring_NewRNSScalarFromUInt64 :: "Ring \<Rightarrow> 64 word \<Rightarrow> RNSScalar" where
  "ring_NewRNSScalarFromUInt64 r v = map (\<lambda>q. unat v mod q) (ModuliChain r)"

definition ring_AtLevel :: "Ring \<Rightarrow> int \<Rightarrow> Ring option" where
  "ring_AtLevel r l =
     (if l < 0 \<or> int (length (ModuliChain r)) \<le> l then None
      else Some (r\<lparr>ModuliChain := take (nat (l + 1)) (ModuliChain r)\<rparr>))"

definition ring_SubRNSScalar :: "Ring \<Rightarrow> RNSScalar \<Rightarrow> RNSScalar \<Rightarrow> RNSScalar \<Rightarrow> RNSScalar option" where
  "ring_SubRNSScalar r s1 s2 sout =
     (let qs = ModuliChain r; n = length qs in
      if length s1 < n \<or> length s2 < n \<or> length sout < n then None
      else Some (map (\<lambda>i. if s2 ! i > s1 ! i then s1 ! i + qs ! i - s2 ! i else s1 ! i - s2 ! i) [0..<n]
                 @ drop n sout))"

definition ring_MulRNSScalar :: "Ring \<Rightarrow> RNSScalar \<Rightarrow> RNSScalar \<Rightarrow> RNSScalar \<Rightarrow> RNSScalar option" where
  "ring_MulRNSScalar r s1 s2 sout =
     (let qs = ModuliChain r; n = length qs in
      if length s1 < n \<or> length s2 < n \<or> length sout < n then None
      else Some (map (\<lambda>i. MRed (s1 ! i) (s2 ! i) (qs ! i)) [0..<n] @ drop n sout))"

definition ring_Inverse :: "Ring \<Rightarrow> RNSScalar \<Rightarrow> RNSScalar option" where
  "ring_Inverse r a =
     (let qs = ModuliChain r; n = length qs in
      if length a < n then None
      else Some (map (\<lambda>i. ModexpMontgomery (a ! i) (qs ! i - 2) (qs ! i)) [0..<n] @ drop n a))"

definition ring_Add :: "Ring \<Rightarrow> Poly \<Rightarrow> Poly \<Rightarrow> Poly \<Rightarrow> Poly option" where
  "ring_Add r p1 p2 p3 =
     (let qs = ModuliChain r; n = length qs in
      if length p1 < n \<or> length p2 < n \<or> length p3 < n then None
      else Some (map (\<lambda>i. map2 (\<lambda>a b. (a + b) mod qs ! i) (p1 ! i) (p2 ! i)) [0..<n] @ drop n p3))"

definition ring_MulScalar :: "Ring \<Rightarrow> Poly \<Rightarrow> 64 word \<Rightarrow> Poly \<Rightarrow> Poly option" where
  "ring_MulScalar r p1 scalar p2 =
     (let qs = ModuliChain r; n = length qs in
      if length p1 < n \<or> length p2 < n then None
      else Some (map (\<lambda>i. map (\<lambda>a. (a * (unat scalar mod qs ! i)) mod qs ! i) (p1 ! i)) [0..<n]
                 @ drop n p2))"

definition ring_MulRNSScalarMontgomery :: "Ring \<Rightarrow> Poly \<Rightarrow> RNSScalar \<Rightarrow> Poly \<Rightarrow> Poly option" where
  "ring_MulRNSScalarMontgomery r p1 scalar p2 =
     (let qs = ModuliChain r; n = length qs in
      if length p1 < n \<or> length scalar < n \<or> length p2 < n then None
      else Some (map (\<lambda>i. map (\<lambda>a. MRed a (scalar ! i) (qs ! i)) (p1 ! i)) [0..<n] @ drop n p2))"

text \<open>
  Horner's rule (section 4.2): the accumulator starts at the highest coefficient; each
  step multiplies it by the scalar and adds the next lower coefficient. An empty
  coefficient vector has no highest coefficient.
\<close>

fun ring_horner :: "Ring \<Rightarrow> Poly list \<Rightarrow> 64 word \<Rightarrow> Poly \<Rightarrow> Poly option" where
  "ring_horner r [] scalar acc = Some acc"
| "ring_horner r (c # cs) scalar acc =
     (case ring_MulScalar r acc scalar acc of
        None \<Rightarrow> None
      | Some m \<Rightarrow> (case ring_Add r m c m of
                     None \<Rightarrow> None
                   | Some a \<Rightarrow> ring_horner r cs scalar a))"

definition ring_EvalPolyScalar :: "Ring \<Rightarrow> Poly list \<Rightarrow> 64 word \<Rightarrow> Poly \<Rightarrow> Poly option" where
  "ring_EvalPolyScalar r p1 scalar p2 =
     (case rev p1 of
        [] \<Rightarrow> None
      | hi # lower \<Rightarrow> ring_horner r lower scalar hi)"

subsection \<open>Two chains: package ringqp\<close>

definition ringqp_NewPoly :: "RingQP \<Rightarrow> PolyQP" where
  "ringqp_NewPoly r =
     \<lparr>Q = ring_NewPoly (RingQ r),
      P = (case RingP r of None \<Rightarrow> [] | Some rp \<Rightarrow> ring_NewPoly rp)\<rparr>"

definition ringqp_NewRNSScalar :: "RingQP \<Rightarrow> RNSScalar" where
  "ringqp_NewRNSScalar r =
     ring_NewRNSScalar (RingQ r) @ (case RingP r of None \<Rightarrow> [] | Some rp \<Rightarrow> ring_NewRNSScalar rp)"

definition ringqp_NewRNSScalarFromUInt64 :: "RingQP \<Rightarrow> 64 word \<Rightarrow> RNSScalar" where
  "ringqp_NewRNSScalarFromUInt64 r v =
     ring_NewRNSScalarFromUInt64 (RingQ r) v
     @ (case RingP r of None \<Rightarrow> [] | Some rp \<Rightarrow> ring_NewRNSScalarFromUInt64 rp v)"

definition ModuliChainLength :: "Ring \<Rightarrow> nat" where
  "ModuliChainLength r = length (ModuliChain r)"

text \<open>
  A scalar of the two chains holds the limbs of \<open>Q\<close> first, then those of \<open>P\<close>; an
  operation on it works on the two halves with the two rings.
\<close>

definition ringqp_scalar2 ::
  "(Ring \<Rightarrow> RNSScalar \<Rightarrow> RNSScalar \<Rightarrow> RNSScalar \<Rightarrow> RNSScalar option) \<Rightarrow>
   RingQP \<Rightarrow> RNSScalar \<Rightarrow> RNSScalar \<Rightarrow> RNSScalar \<Rightarrow> RNSScalar option" where
  "ringqp_scalar2 f r s1 s2 sout =
     (let qlen = ModuliChainLength (RingQ r) in
      if length s1 < qlen \<or> length s2 < qlen \<or> length sout < qlen then None
      else case f (RingQ r) (take qlen s1) (take qlen s2) (take qlen sout) of
             None \<Rightarrow> None
           | Some oq \<Rightarrow>
               (case RingP r of
                  None \<Rightarrow> Some (oq @ drop qlen sout)
                | Some rp \<Rightarrow>
                    (case f rp (drop qlen s1) (drop qlen s2) (drop qlen sout) of
                       None \<Rightarrow> None
                     | Some op \<Rightarrow> Some (oq @ op))))"

definition ringqp_SubRNSScalar :: "RingQP \<Rightarrow> RNSScalar \<Rightarrow> RNSScalar \<Rightarrow> RNSScalar \<Rightarrow> RNSScalar option" where
  "ringqp_SubRNSScalar = ringqp_scalar2 ring_SubRNSScalar"

definition ringqp_MulRNSScalar :: "RingQP \<Rightarrow> RNSScalar \<Rightarrow> RNSScalar \<Rightarrow> RNSScalar \<Rightarrow> RNSScalar option" where
  "ringqp_MulRNSScalar = ringqp_scalar2 ring_MulRNSScalar"

definition ringqp_Inverse :: "RingQP \<Rightarrow> RNSScalar \<Rightarrow> RNSScalar option" where
  "ringqp_Inverse r a = ringqp_scalar2 (\<lambda>rr s1 s2 sout. ring_Inverse rr s1) r a a a"

definition ringqp_AtLevel :: "RingQP \<Rightarrow> int \<Rightarrow> int \<Rightarrow> RingQP option" where
  "ringqp_AtLevel r levelQ levelP =
     (case (if levelQ > -1 then ring_AtLevel (RingQ r) levelQ
            else Some ((RingQ r)\<lparr>ModuliChain := []\<rparr>)) of
        None \<Rightarrow> None
      | Some rq \<Rightarrow>
          (case RingP r of
             None \<Rightarrow> Some \<lparr>RingQ = rq, RingP = None\<rparr>
           | Some rp \<Rightarrow>
               if levelP > -1 then
                 (case ring_AtLevel rp levelP of
                    None \<Rightarrow> None
                  | Some rp' \<Rightarrow> Some \<lparr>RingQ = rq, RingP = Some rp'\<rparr>)
               else Some \<lparr>RingQ = rq, RingP = None\<rparr>))"

definition ringqp_Add :: "RingQP \<Rightarrow> PolyQP \<Rightarrow> PolyQP \<Rightarrow> PolyQP \<Rightarrow> PolyQP option" where
  "ringqp_Add r p1 p2 p3 =
     (case ring_Add (RingQ r) (Q p1) (Q p2) (Q p3) of
        None \<Rightarrow> None
      | Some oq \<Rightarrow>
          (case RingP r of
             None \<Rightarrow> Some \<lparr>Q = oq, P = P p3\<rparr>
           | Some rp \<Rightarrow>
               (case ring_Add rp (P p1) (P p2) (P p3) of
                  None \<Rightarrow> None
                | Some op \<Rightarrow> Some \<lparr>Q = oq, P = op\<rparr>)))"

definition ringqp_MulRNSScalarMontgomery :: "RingQP \<Rightarrow> PolyQP \<Rightarrow> RNSScalar \<Rightarrow> PolyQP \<Rightarrow> PolyQP option" where
  "ringqp_MulRNSScalarMontgomery r ip scalar op =
     (let qlen = ModuliChainLength (RingQ r) in
      if length scalar < qlen then None
      else case ring_MulRNSScalarMontgomery (RingQ r) (Q ip) (take qlen scalar) (Q op) of
             None \<Rightarrow> None
           | Some oq \<Rightarrow>
               (case RingP r of
                  None \<Rightarrow> Some \<lparr>Q = oq, P = P op\<rparr>
                | Some rp \<Rightarrow>
                    (case ring_MulRNSScalarMontgomery rp (P ip) (drop qlen scalar) (P op) of
                       None \<Rightarrow> None
                     | Some opp \<Rightarrow> Some \<lparr>Q = oq, P = opp\<rparr>)))"

definition ringqp_EvalPolyScalar :: "RingQP \<Rightarrow> PolyQP list \<Rightarrow> 64 word \<Rightarrow> PolyQP \<Rightarrow> PolyQP option" where
  "ringqp_EvalPolyScalar r p1 scalar p2 =
     (case ring_EvalPolyScalar (RingQ r) (map Q p1) scalar (Q p2) of
        None \<Rightarrow> None
      | Some oq \<Rightarrow>
          (case RingP r of
             None \<Rightarrow> Some \<lparr>Q = oq, P = P p2\<rparr>
           | Some rp \<Rightarrow>
               (case ring_EvalPolyScalar rp (map P p1) scalar (P p2) of
                  None \<Rightarrow> None
                | Some op \<Rightarrow> Some \<lparr>Q = oq, P = op\<rparr>)))"

subsection \<open>Uniform sampling\<close>

text \<open>
  Modelled from the spec: package \<open>sampling\<close> and the uniform samplers are not among the
  source files. The pseudo-random generator is a sequence of draws and the position of
  the next one; reading a polynomial takes one draw per coefficient of every limb,
  reduced into the limb, and advances the position. Both samplers of a
  \<open>Thresholdizer\<close> are built over the same generator. The sampler is only ever applied
  to a polynomial that \<open>NewPoly\<close> of its own ring has just allocated.
\<close>

record PRNG =
  draws :: "nat \<Rightarrow> nat"
  pos :: nat

definition ring_Read :: "Ring \<Rightarrow> PRNG \<Rightarrow> Poly \<Rightarrow> Poly \<times> PRNG" where
  "ring_Read r g pol =
     (let qs = ModuliChain r; n = length qs; d = RingDegree r in
      (map (\<lambda>i. map (\<lambda>j. draws g (pos g + i * d + j) mod qs ! i) [0..<d]) [0..<n] @ drop n pol,
       g\<lparr>pos := pos g + n * d\<rparr>))"

definition ringqp_Read :: "RingQP \<Rightarrow> PRNG \<Rightarrow> PolyQP \<Rightarrow> PolyQP \<times> PRNG" where
  "ringqp_Read r g pol =
     (let (oq, g1) = ring_Read (RingQ r) g (Q pol) in
      case RingP r of
        None \<Rightarrow> (\<lparr>Q = oq, P = P pol\<rparr>, g1)
      | Some rp \<Rightarrow> (let (op, g2) = ring_Read rp g1 (P pol) in (\<lparr>Q = oq, P = op\<rparr>, g2)))"

section \<open>Thresholdizer\<close>

text \<open>
  \<open>rlwe.Parameters\<close> is used through \<open>RingQ()\<close> and \<open>RingQP()\<close> only, so a parameter set
  is its ring \<open>RingQP\<close>. The generator of \<open>NewThresholdizer\<close> is passed in.
\<close>

type_synonym Parameters = RingQP

record Rings =
  ringQ :: Ring
  ringQP :: RingQP

record Thresholdizer = Rings +
  prng :: PRNG

definition NewThresholdizer :: "Parameters \<Rightarrow> PRNG \<Rightarrow> Thresholdizer" where
  "NewThresholdizer params g = \<lparr>ringQ = RingQ params, ringQP = params, prng = g\<rparr>"

text \<open>The loop \<open>for i := 1; i < threshold; i++\<close>, counted by the iterations left.\<close>

fun sampleLoopQ :: "Ring \<Rightarrow> nat \<Rightarrow> PRNG \<Rightarrow> Poly list \<times> PRNG" where
  "sampleLoopQ r 0 g = ([], g)"
| "sampleLoopQ r (Suc k) g =
     (let (p, g1) = ring_Read r g (ring_NewPoly r);
          (ps, g2) = sampleLoopQ r k g1
      in (p # ps, g2))"

fun sampleLoopQP :: "RingQP \<Rightarrow> nat \<Rightarrow> PRNG \<Rightarrow> PolyQP list \<times> PRNG" where
  "sampleLoopQP r 0 g = ([], g)"
| "sampleLoopQP r (Suc k) g =
     (let (p, g1) = ringqp_Read r g (ringqp_NewPoly r);
          (ps, g2) = sampleLoopQP r k g1
      in (p # ps, g2))"

definition GenShamirPolynomialQ ::
  "Thresholdizer \<Rightarrow> int \<Rightarrow> Poly \<Rightarrow> (ShamirPolynomialQ \<times> error option) \<times> Thresholdizer" where
  "GenShamirPolynomialQ thr threshold secret =
     (if threshold < 1 then (([], Some InvalidThreshold), thr)
      else let (gen, g) = sampleLoopQ (ringQ thr) (nat (threshold - 1)) (prng thr)
           in ((secret # gen, None), thr\<lparr>prng := g\<rparr>))"

definition GenShamirPolynomialQP ::
  "Thresholdizer \<Rightarrow> int \<Rightarrow> PolyQP \<Rightarrow> (ShamirPolynomialQP \<times> error option) \<times> Thresholdizer" where
  "GenShamirPolynomialQP thr threshold secret =
     (if threshold < 1 then (([], Some InvalidThreshold), thr)
      else let (gen, g) = sampleLoopQP (ringQP thr) (nat (threshold - 1)) (prng thr)
           in ((secret # gen, None), thr\<lparr>prng := g\<rparr>))"

definition AllocateThresholdSecretShareQ :: "Thresholdizer \<Rightarrow> ShamirSecretShareQ" where
  "AllocateThresholdSecretShareQ thr = ring_NewPoly (ringQ thr)"

definition AllocateThresholdSecretShare :: "Thresholdizer \<Rightarrow> ShamirSecretShareQP" where
  "AllocateThresholdSecretShare thr = ringqp_NewPoly (ringQP thr)"

definition GenShamirSecretShareQ ::
  "Thresholdizer \<Rightarrow> ShamirPublicPoint \<Rightarrow> ShamirPolynomialQ \<Rightarrow> ShamirSecretShareQ \<Rightarrow> ShamirSecretShareQ option" where
  "GenShamirSecretShareQ thr recipient secretPoly shareOut =
     ring_EvalPolyScalar (ringQ thr) secretPoly recipient shareOut"

definition GenShamirSecretShareQP ::
  "Thresholdizer \<Rightarrow> ShamirPublicPoint \<Rightarrow> ShamirPolynomialQP \<Rightarrow> ShamirSecretShareQP \<Rightarrow> ShamirSecretShareQP option" where
  "GenShamirSecretShareQP thr recipient secretPoly shareOut =
     ringqp_EvalPolyScalar (ringQP thr) secretPoly recipient shareOut"

definition AggregateShares ::
  "Thresholdizer \<Rightarrow> ShamirSecretShareQP \<Rightarrow> ShamirSecretShareQP \<Rightarrow> ShamirSecretShareQP \<Rightarrow> ShamirSecretShareQP outcome" where
  "AggregateShares thr share1 share2 outShare =
     (if LevelQ share1 \<noteq> LevelQ share2 \<or> LevelQ share1 \<noteq> LevelQ outShare
         \<or> LevelP share1 \<noteq> LevelP share2 \<or> LevelP share1 \<noteq> LevelP outShare
      then Return (Some LevelMismatch) outShare
      else case ringqp_AtLevel (ringQP thr) (LevelQ share1) (LevelP share1) of
             None \<Rightarrow> Fault
           | Some r \<Rightarrow>
               (case ringqp_Add r share1 share2 outShare of
                  None \<Rightarrow> Fault
                | Some out \<Rightarrow> Return None out))"

section \<open>Combiner\<close>

record Combiner = Rings +
  threshold :: int
  tmp1 :: "nat list"
  tmp2 :: "nat list"
  one :: RNSScalar
  lagrangeCoeffs :: "ShamirPublicPoint \<rightharpoonup> RNSScalar"

text \<open>Reading a key the map does not hold gives the zero value, a \<open>nil\<close> slice.\<close>

definition lookupCoeff :: "(ShamirPublicPoint \<rightharpoonup> RNSScalar) \<Rightarrow> ShamirPublicPoint \<Rightarrow> RNSScalar" where
  "lookupCoeff m k = (case m k of None \<Rightarrow> [] | Some c \<Rightarrow> c)"

text \<open>The builtin \<open>copy(dst, src)\<close> overwrites as many elements as both slices have.\<close>

definition copy_slice :: "'a list \<Rightarrow> 'a list \<Rightarrow> 'a list" where
  "copy_slice dst src = take (length dst) src @ drop (length src) dst"

definition lagrangeCoeff ::
  "Combiner \<Rightarrow> ShamirPublicPoint \<Rightarrow> ShamirPublicPoint \<Rightarrow> RNSScalar \<Rightarrow> RNSScalar option" where
  "lagrangeCoeff cmb thisKey thatKey lagCoeff =
     (let this = ringqp_NewRNSScalarFromUInt64 (ringQP cmb) thisKey;
          that = ringqp_NewRNSScalarFromUInt64 (ringQP cmb) thatKey
      in case ringqp_SubRNSScalar (ringQP cmb) that this lagCoeff of
           None \<Rightarrow> None
         | Some l1 \<Rightarrow>
             (case ringqp_Inverse (ringQP cmb) l1 of
                None \<Rightarrow> None
              | Some l2 \<Rightarrow> ringqp_MulRNSScalar (ringQP cmb) l2 that l2))"

text \<open>The two loops of \<open>NewCombiner\<close> that put \<open>one\<close> into Montgomery form.\<close>

definition mformLoop :: "nat list \<Rightarrow> nat \<Rightarrow> RNSScalar \<Rightarrow> RNSScalar" where
  "mformLoop qs off s = fold (\<lambda>i acc. acc[i + off := MForm (acc ! (i + off)) (qs ! i)]) [0..<length qs] s"

text \<open>The loop of \<open>NewCombiner\<close> over \<open>others\<close>.\<close>

fun coeffLoop ::
  "Combiner \<Rightarrow> ShamirPublicPoint \<Rightarrow> ShamirPublicPoint list \<Rightarrow> Combiner option" where
  "coeffLoop cmb own [] = Some cmb"
| "coeffLoop cmb own (spk # others) =
     (if spk \<noteq> own then
        (case lagrangeCoeff cmb own spk (ringqp_NewRNSScalar (ringQP cmb)) of
           None \<Rightarrow> None
         | Some c \<Rightarrow> coeffLoop (cmb\<lparr>lagrangeCoeffs := (lagrangeCoeffs cmb)(spk \<mapsto> c)\<rparr>) own others)
      else coeffLoop cmb own others)"

definition NewCombiner ::
  "Parameters \<Rightarrow> ShamirPublicPoint \<Rightarrow> ShamirPublicPoint list \<Rightarrow> int \<Rightarrow> Combiner option" where
  "NewCombiner params own others thresh =
     (let one0 = ringqp_NewRNSScalarFromUInt64 params 1;
          qlen = ModuliChainLength (RingQ params);
          one1 = mformLoop (ModuliChain (RingQ params)) 0 one0;
          one2 = (case RingP params of
                    None \<Rightarrow> one1
                  | Some rp \<Rightarrow> mformLoop (ModuliChain rp) qlen one1)
      in coeffLoop
           \<lparr>ringQ = RingQ params, ringQP = params, threshold = thresh,
            tmp1 = ringqp_NewRNSScalar params, tmp2 = ringqp_NewRNSScalar params,
            one = one2, lagrangeCoeffs = Map.empty\<rparr>
           own others)"

text \<open>
  The loop of \<open>GenAdditiveShareQ\<close> over \<open>activesPoints[:cmb.threshold]\<close>, with the
  product \<open>prod\<close> (here \<open>prd\<close>) passed along.
\<close>

fun prodLoopQ ::
  "Combiner \<Rightarrow> ShamirPublicPoint \<Rightarrow> ShamirPublicPoint list \<Rightarrow> RNSScalar \<Rightarrow> RNSScalar option" where
  "prodLoopQ cmb ownPoint [] prd = Some prd"
| "prodLoopQ cmb ownPoint (active # actives) prd =
     (if active \<noteq> ownPoint then
        (case ring_MulRNSScalar (ringQ cmb) prd (lookupCoeff (lagrangeCoeffs cmb) active) prd of
           None \<Rightarrow> None
         | Some prd' \<Rightarrow> prodLoopQ cmb ownPoint actives prd')
      else prodLoopQ cmb ownPoint actives prd)"

fun prodLoopQP ::
  "Combiner \<Rightarrow> ShamirPublicPoint \<Rightarrow> ShamirPublicPoint list \<Rightarrow> RNSScalar \<Rightarrow> RNSScalar option" where
  "prodLoopQP cmb ownPoint [] prd = Some prd"
| "prodLoopQP cmb ownPoint (active # actives) prd =
     (if active \<noteq> ownPoint then
        (case ringqp_MulRNSScalar (ringQP cmb) prd (lookupCoeff (lagrangeCoeffs cmb) active) prd of
           None \<Rightarrow> None
         | Some prd' \<Rightarrow> prodLoopQP cmb ownPoint actives prd')
      else prodLoopQP cmb ownPoint actives prd)"

text \<open>
  Slicing \<open>activesPoints[:cmb.threshold]\<close> with a negative bound panics; the length
  check before it excludes a bound beyond the length.
\<close>

definition GenAdditiveShareQ ::
  "Combiner \<Rightarrow> ShamirPublicPoint list \<Rightarrow> ShamirPublicPoint \<Rightarrow> Poly \<Rightarrow> Poly \<Rightarrow> Poly outcome" where
  "GenAdditiveShareQ cmb activesPoints ownPoint ownShare skOut =
     (if int (length activesPoints) < threshold cmb then Return (Some InsufficientParties) skOut
      else if threshold cmb < 0 then Fault
      else case prodLoopQ cmb ownPoint (take (nat (threshold cmb)) activesPoints)
                  (copy_slice (tmp2 cmb) (one cmb)) of
             None \<Rightarrow> Fault
           | Some prd \<Rightarrow>
               (case ring_MulRNSScalarMontgomery (ringQ cmb) ownShare prd skOut of
                  None \<Rightarrow> Fault
                | Some sk \<Rightarrow> Return None sk))"

definition GenAdditiveShareQP ::
  "Combiner \<Rightarrow> ShamirPublicPoint list \<Rightarrow> ShamirPublicPoint \<Rightarrow> ShamirSecretShareQP \<Rightarrow> PolyQP \<Rightarrow> PolyQP outcome" where
  "GenAdditiveShareQP cmb activesPoints ownPoint ownShare skOut =
     (if int (length activesPoints) < threshold cmb then Return (Some InsufficientParties) skOut
      else if threshold cmb < 0 then Fault
      else case prodLoopQP cmb ownPoint (take (nat (threshold cmb)) activesPoints)
                  (copy_slice (tmp2 cmb) (one cmb)) of
             None \<Rightarrow> Fault
           | Some prd \<Rightarrow>
               (case ringqp_MulRNSScalarMontgomery (ringQP cmb) ownShare prd skOut of
                  None \<Rightarrow> Fault
                | Some sk \<Rightarrow> Return None sk))"

section \<open>Specification-level notions\<close>

text \<open>
  Pointwise ring addition, limb by limb over a modulus chain (section 4.3 of the
  specification), to compare with what \<open>AggregateShares\<close> stores.
\<close>

definition pointwiseSum :: "nat list \<Rightarrow> Poly \<Rightarrow> Poly \<Rightarrow> Poly" where
  "pointwiseSum qs p1 p2 =
     map (\<lambda>i. map2 (\<lambda>a b. (a + b) mod qs ! i) (p1 ! i) (p2 ! i)) [0..<length p1]"

text \<open>
  The moduli of the two chains in the order of the limbs of a scalar: \<open>Q\<close>, then \<open>P\<close>.
\<close>

definition chainQP :: "RingQP \<Rightarrow> nat list" where
  "chainQP r = ModuliChain (RingQ r) @ (case RingP r of None \<Rightarrow> [] | Some rp \<Rightarrow> ModuliChain rp)"

text \<open>
  One limb of a Lagrange coefficient (section 4.4): subtraction in the limb, inversion
  in the limb, Montgomery multiplication by the other identity.
\<close>

definition lagrangeLimb :: "nat \<Rightarrow> 64 word \<Rightarrow> 64 word \<Rightarrow> nat" where
  "lagrangeLimb q own other =
     (let that = unat other mod q; this = unat own mod q;
          d = (if this > that then that + q - this else that - this)
      in MRed (ModexpMontgomery d (q - 2) q) that q)"

text \<open>The multiplicative identity of a limb in Montgomery form.\<close>

definition MontgomeryOne :: "nat \<Rightarrow> nat" where
  "MontgomeryOne q = MForm (1 mod q) q"

text \<open>
  The accumulator of section 4.5 in one limb: from a start value, multiplied in
  Montgomery form by each coefficient in turn.
\<close>

definition montgomeryProduct :: "nat \<Rightarrow> nat \<Rightarrow> nat list \<Rightarrow> nat" where
  "montgomeryProduct q start cs = foldl (\<lambda>acc c. MRed acc c q) start cs"

text \<open>
  Multiplication of a ring element by a scalar in Montgomery form, limb by limb.
\<close>

definition mulLimbs :: "nat list \<Rightarrow> Poly \<Rightarrow> RNSScalar \<Rightarrow> Poly" where
  "mulLimbs qs p s = map (\<lambda>i. map (\<lambda>a. MRed a (s ! i) (qs ! i)) (p ! i)) [0..<length qs]"

text \<open>
  The product of section 4.5: in every limb, the Montgomery one multiplied by the
  stored coefficient of each of the given identities, in their order.
\<close>

definition lagrangeProducts ::
  "nat list \<Rightarrow> (ShamirPublicPoint \<rightharpoonup> RNSScalar) \<Rightarrow> ShamirPublicPoint list \<Rightarrow> RNSScalar" where
  "lagrangeProducts qs coeffs ids =
     map (\<lambda>i. montgomeryProduct (qs ! i) (MontgomeryOne (qs ! i))
                (map (\<lambda>a. lookupCoeff coeffs a ! i) ids))
       [0..<length qs]"

text \<open>A value of the two chains that has exactly the limbs of the ring.\<close>

definition atRingLevel :: "RingQP \<Rightarrow> PolyQP \<Rightarrow> bool" where
  "atRingLevel r p \<longleftrightarrow>
     length (Q p) = length (ModuliChain (RingQ r))
     \<and> (case RingP r of None \<Rightarrow> True | Some rp \<Rightarrow> length (P p) = length (ModuliChain rp))"

text \<open>The number of draws one read of the uniform sampler takes.\<close>

definition drawsQ :: "Ring \<Rightarrow> nat" where
  "drawsQ r = length (ModuliChain r) * RingDegree r"

definition drawsQP :: "RingQP \<Rightarrow> nat" where
  "drawsQP r = drawsQ (RingQ r) + (case RingP r of None \<Rightarrow> 0 | Some rp \<Rightarrow> drawsQ rp)"

text \<open>
  A ring element with the limbs of the ring and the degree of the ring in every limb.
\<close>

definition wfPoly :: "Ring \<Rightarrow> Poly \<Rightarrow> bool" where
  "wfPoly r p \<longleftrightarrow> length p = length (ModuliChain r) \<and> list_all (\<lambda>v. length v = RingDegree r) p"

definition wfPolyQP :: "RingQP \<Rightarrow> PolyQP \<Rightarrow> bool" where
  "wfPolyQP r p \<longleftrightarrow> wfPoly (RingQ r) (Q p)
      \<and> (case RingP r of None \<Rightarrow> True | Some rp \<Rightarrow> wfPoly rp (P p))"

section \<open>Auxiliary notions of the correctness proofs\<close>

text \<open>
  The moduli of a chain are primes (odd ones, so that the Montgomery radix is
  invertible). Primality by trial division.
\<close>

definition is_prime :: "nat \<Rightarrow> bool" where
  "is_prime p \<longleftrightarrow> 1 < p \<and> list_all (\<lambda>m. \<not> m dvd p) [2..<p]"

text \<open>
  For the proof of reconstruction: polynomials over the integers as coefficient lists
  (lowest degree first), with evaluation, sum, scalar multiple, product with a linear
  factor \<open>a - z\<close>, product of such factors, division by \<open>z - a\<close> and a sum of many.
\<close>

fun peval :: "int list \<Rightarrow> int \<Rightarrow> int" where
  "peval [] z = 0"
| "peval (c # cs) z = c + z * peval cs z"

fun padd :: "int list \<Rightarrow> int list \<Rightarrow> int list" where
  "padd [] ys = ys"
| "padd xs [] = xs"
| "padd (x # xs) (y # ys) = (x + y) # padd xs ys"

definition smult :: "int \<Rightarrow> int list \<Rightarrow> int list" where
  "smult c p = map ((*) c) p"

definition plin :: "int \<Rightarrow> int list \<Rightarrow> int list" where
  "plin a p = padd (smult a p) (0 # smult (- 1) p)"

fun pprod :: "int list \<Rightarrow> int list" where
  "pprod [] = [1]"
| "pprod (a # as) = plin a (pprod as)"

fun sdiv :: "int list \<Rightarrow> int \<Rightarrow> int list" where
  "sdiv [] a = []"
| "sdiv [c] a = []"
| "sdiv (c # d # ds) a = peval (d # ds) a # sdiv (d # ds) a"

fun psum :: "int list list \<Rightarrow> int list" where
  "psum [] = []"
| "psum (p # ps) = padd p (psum ps)"

text \<open>Congruence of integers modulo a limb modulus, and an identity as an integer.\<close>

definition eqm :: "nat \<Rightarrow> int \<Rightarrow> int \<Rightarrow> bool" where
  "eqm q a b \<longleftrightarrow> a mod int q = b mod int q"

definition node :: "64 word \<Rightarrow> int" where
  "node w = int (unat w)"

text \<open>
  What the protocol computes in one coefficient of one limb: the share by Horner's rule
  (section 4.2), the additive share of a member of the quorum (section 4.5), and the
  sum of residues.
\<close>

definition evalLimb :: "nat \<Rightarrow> nat list \<Rightarrow> 64 word \<Rightarrow> nat" where
  "evalLimb q cs x =
     foldl (\<lambda>acc c. ((acc * (unat x mod q)) mod q + c) mod q) (last cs) (rev (butlast cs))"

definition sumLimb :: "nat \<Rightarrow> nat list \<Rightarrow> nat" where
  "sumLimb q xs = foldr (\<lambda>x acc. (acc + x) mod q) xs 0"

definition additiveLimb :: "nat \<Rightarrow> ShamirPublicPoint list \<Rightarrow> ShamirPublicPoint \<Rightarrow> nat \<Rightarrow> nat" where
  "additiveLimb q quorum own share =
     MRed share (montgomeryProduct q (MontgomeryOne q)
                   (map (lagrangeLimb q own) (filter (\<lambda>b. b \<noteq> own) quorum))) q"

text \<open>A ring element of a chain given by its residues: limb \<open>l\<close>, coefficient \<open>n\<close>.\<close>

definition mkPoly :: "Ring \<Rightarrow> (nat \<Rightarrow> nat \<Rightarrow> nat) \<Rightarrow> Poly" where
  "mkPoly r f = map (\<lambda>l. map (\<lambda>n. f l n) [0..<RingDegree r]) [0..<length (ModuliChain r)]"

section \<open>Protocol runs\<close>

text \<open>
  The moduli of the \<open>P\<close> chain (none when the ring has no \<open>P\<close> part), a ring element of
  both chains given by its residues, the residues of a ring element modulo the chains,
  and the residues of the sum of two.
\<close>

definition chainP :: "RingQP \<Rightarrow> nat list" where
  "chainP r = (case RingP r of None \<Rightarrow> [] | Some rp \<Rightarrow> ModuliChain rp)"

definition mkPolyQP :: "RingQP \<Rightarrow> (nat \<Rightarrow> nat \<Rightarrow> nat) \<Rightarrow> (nat \<Rightarrow> nat \<Rightarrow> nat) \<Rightarrow> PolyQP" where
  "mkPolyQP r f g =
     \<lparr>Q = mkPoly (RingQ r) f, P = (case RingP r of None \<Rightarrow> [] | Some rp \<Rightarrow> mkPoly rp g)\<rparr>"

definition residuesQP :: "RingQP \<Rightarrow> PolyQP \<Rightarrow> PolyQP" where
  "residuesQP r s =
     mkPolyQP r (\<lambda>l n. Q s ! l ! n mod ModuliChain (RingQ r) ! l) (\<lambda>l n. P s ! l ! n mod chainP r ! l)"

definition residueSumQP :: "RingQP \<Rightarrow> PolyQP \<Rightarrow> PolyQP \<Rightarrow> PolyQP" where
  "residueSumQP r s1 s2 =
     mkPolyQP r (\<lambda>l n. (Q s1 ! l ! n + Q s2 ! l ! n) mod ModuliChain (RingQ r) ! l)
                (\<lambda>l n. (P s1 ! l ! n + P s2 ! l ! n) mod chainP r ! l)"

text \<open>Every coefficient of every limb is below the modulus of the limb.\<close>

definition reducedPoly :: "Ring \<Rightarrow> Poly \<Rightarrow> bool" where
  "reducedPoly r p \<longleftrightarrow> list_all2 (\<lambda>q v. list_all (\<lambda>c. c < q) v) (ModuliChain r) p"

definition reducedQP :: "RingQP \<Rightarrow> PolyQP \<Rightarrow> bool" where
  "reducedQP r p \<longleftrightarrow> reducedPoly (RingQ r) (Q p)
      \<and> (case RingP r of None \<Rightarrow> P p = [] | Some rp \<Rightarrow> reducedPoly rp (P p))"

text \<open>
  What a member of the quorum does with the share it holds: it builds a \<open>Combiner\<close> over
  the quorum with \<open>NewCombiner\<close> and calls \<open>GenAdditiveShareQP\<close> on a new ring element.
  An error or a fault leaves the member without an additive share.
\<close>

definition memberCombine ::
  "Parameters \<Rightarrow> ShamirPublicPoint list \<Rightarrow> int \<Rightarrow> ShamirPublicPoint \<Rightarrow> ShamirSecretShareQP
   \<Rightarrow> PolyQP option" where
  "memberCombine params quorum thresh own share =
     (case NewCombiner params own quorum thresh of
        None \<Rightarrow> None
      | Some cmb \<Rightarrow>
          (case GenAdditiveShareQP cmb quorum own share (ringqp_NewPoly params) of
             Return None sk \<Rightarrow> Some sk
           | Return (Some e) sk \<Rightarrow> None
           | Fault \<Rightarrow> None))"

text \<open>
  The dealer evaluates the share of the member with \<open>GenShamirSecretShareQP\<close> on a share
  allocated by \<open>AllocateThresholdSecretShare\<close>; the member combines it.
\<close>

definition memberAdditiveShare ::
  "Parameters \<Rightarrow> Thresholdizer \<Rightarrow> ShamirPolynomialQP \<Rightarrow> ShamirPublicPoint list \<Rightarrow> int
   \<Rightarrow> ShamirPublicPoint \<Rightarrow> PolyQP option" where
  "memberAdditiveShare params thr secretPoly quorum thresh own =
     (case GenShamirSecretShareQP thr own secretPoly (AllocateThresholdSecretShare thr) of
        None \<Rightarrow> None
      | Some share \<Rightarrow> memberCombine params quorum thresh own share)"

text \<open>
  With two dealers the member first adds the two shares it received with
  \<open>AggregateShares\<close>, then combines the aggregate. \<open>AggregateShares\<close> reads only the ring of
  the \<open>Thresholdizer\<close> it is called on.
\<close>

definition memberAggregatedShare ::
  "Parameters \<Rightarrow> Thresholdizer \<Rightarrow> ShamirPolynomialQP \<Rightarrow> Thresholdizer \<Rightarrow> ShamirPolynomialQP
   \<Rightarrow> ShamirPublicPoint list \<Rightarrow> int \<Rightarrow> ShamirPublicPoint \<Rightarrow> PolyQP option" where
  "memberAggregatedShare params thr1 poly1 thr2 poly2 quorum thresh own =
     (case GenShamirSecretShareQP thr1 own poly1 (AllocateThresholdSecretShare thr1) of
        None \<Rightarrow> None
      | Some share1 \<Rightarrow>
          (case GenShamirSecretShareQP thr2 own poly2 (AllocateThresholdSecretShare thr2) of
             None \<Rightarrow> None
           | Some share2 \<Rightarrow>
               (case AggregateShares thr1 share1 share2 (AllocateThresholdSecretShare thr1) of
                  Return None agg \<Rightarrow> memberCombine params quorum thresh own agg
                | Return (Some e) out \<Rightarrow> None
                | Fault \<Rightarrow> None)))"

text \<open>The sum of the additive shares in the ring, from the zero element.\<close>

fun sumShares :: "RingQP \<Rightarrow> PolyQP option list \<Rightarrow> PolyQP option" where
  "sumShares r [] = Some (ringqp_NewPoly r)"
| "sumShares r (None # ps) = None"
| "sumShares r (Some p # ps) =
     (case sumShares r ps of None \<Rightarrow> None | Some acc \<Rightarrow> ringqp_Add r acc p acc)"

text \<open>
  The run of section 8, property 1: \<open>GenShamirPolynomialQP\<close> on a new \<open>Thresholdizer\<close>,
  then one additive share for every member of the quorum, then their sum. The share of
  an identity depends on the polynomial and on that identity only, so the shares of
  identities outside the quorum play no part.
\<close>

definition reconstruct ::
  "Parameters \<Rightarrow> PRNG \<Rightarrow> int \<Rightarrow> PolyQP \<Rightarrow> ShamirPublicPoint list \<Rightarrow> PolyQP option" where
  "reconstruct params g thresh secret quorum =
     (case GenShamirPolynomialQP (NewThresholdizer params g) thresh secret of
        ((secretPoly, Some e), thr) \<Rightarrow> None
      | ((secretPoly, None), thr) \<Rightarrow>
          sumShares params (map (memberAdditiveShare params thr secretPoly quorum thresh) quorum))"

text \<open>
  The run of section 8, property 3: two dealers, each with a \<open>Thresholdizer\<close> and a
  generator of its own, and the same threshold.
\<close>

definition reconstructAggregated ::
  "Parameters \<Rightarrow> PRNG \<Rightarrow> PRNG \<Rightarrow> int \<Rightarrow> PolyQP \<Rightarrow> PolyQP \<Rightarrow> ShamirPublicPoint list
   \<Rightarrow> PolyQP option" where
  "reconstructAggregated params g1 g2 thresh secret1 secret2 quorum =
     (case GenShamirPolynomialQP (NewThresholdizer params g1) thresh secret1 of
        ((poly1, Some e), thr1) \<Rightarrow> None
      | ((poly1, None), thr1) \<Rightarrow>
          (case GenShamirPolynomialQP (NewThresholdizer params g2) thresh secret2 of
             ((poly2, Some e), thr2) \<Rightarrow> None
           | ((poly2, None), thr2) \<Rightarrow>
               sumShares params
                 (map (memberAggregatedShare params thr1 poly1 thr2 poly2 quorum thresh) quorum)))"

section \<open>Serialization\<close>

text \<open>
  Modelled from the spec: the encoding methods of \<open>ringqp.Poly\<close> and \<open>ring.Poly\<close>
  (\<open>BinarySize\<close>, \<open>WriteTo\<close>, \<open>ReadFrom\<close>, \<open>MarshalBinary\<close>, \<open>UnmarshalBinary\<close>) are not among
  the source files; only the methods of \<open>ShamirSecretShareQP\<close> that call them are. Section
  6 of the specification says that a share serializes as the byte encoding of its ring
  element and that deserialization rejects a length that does not match the expected
  element encoding for the declared level; it does not fix the layout. The layout
  taken here: an unsigned 64-bit integer is eight bytes, lowest first; a vector is its
  length followed by its entries; a \<open>ring.Poly\<close> is the vector of its limbs, so its first
  eight bytes declare the number of limbs (the level plus one); a \<open>ringqp.Poly\<close> is its
  \<open>Q\<close> part followed by its \<open>P\<close> part. A reader returns the value and the bytes left, or \<open>None\<close> for the error; a
  writer is the list of bytes written so far, and writing to it does not fail.
\<close>

type_synonym byte = "8 word"

primrec le_bytes :: "nat \<Rightarrow> nat \<Rightarrow> byte list" where
  "le_bytes 0 n = []"
| "le_bytes (Suc k) n = of_nat (n mod 256) # le_bytes k (n div 256)"

primrec le_value :: "byte list \<Rightarrow> nat" where
  "le_value [] = 0"
| "le_value (b # bs) = unat b + 256 * le_value bs"

definition writeUint64 :: "nat \<Rightarrow> byte list" where
  "writeUint64 n = le_bytes 8 n"

definition readUint64 :: "byte list \<Rightarrow> (nat \<times> byte list) option" where
  "readUint64 bs = (if length bs < 8 then None else Some (le_value (take 8 bs), drop 8 bs))"

primrec readMany ::
  "(byte list \<Rightarrow> ('a \<times> byte list) option) \<Rightarrow> nat \<Rightarrow> byte list \<Rightarrow> ('a list \<times> byte list) option" where
  "readMany rd 0 bs = Some ([], bs)"
| "readMany rd (Suc n) bs =
     (case rd bs of
        None \<Rightarrow> None
      | Some (x, bs') \<Rightarrow>
          (case readMany rd n bs' of
             None \<Rightarrow> None
           | Some (xs, bs'') \<Rightarrow> Some (x # xs, bs'')))"

definition writeVector :: "('a \<Rightarrow> byte list) \<Rightarrow> 'a list \<Rightarrow> byte list" where
  "writeVector wr xs = writeUint64 (length xs) @ concat (map wr xs)"

definition readVector ::
  "(byte list \<Rightarrow> ('a \<times> byte list) option) \<Rightarrow> byte list \<Rightarrow> ('a list \<times> byte list) option" where
  "readVector rd bs =
     (case readUint64 bs of None \<Rightarrow> None | Some (n, bs') \<Rightarrow> readMany rd n bs')"

text \<open>The encoding of \<open>ring.Poly\<close> and its size in bytes.\<close>

definition ring_Poly_BinarySize :: "Poly \<Rightarrow> nat" where
  "ring_Poly_BinarySize p = 8 + sum_list (map (\<lambda>v. 8 + 8 * length v) p)"

definition ring_Poly_encode :: "Poly \<Rightarrow> byte list" where
  "ring_Poly_encode p = writeVector (writeVector writeUint64) p"

definition ring_Poly_decode :: "byte list \<Rightarrow> (Poly \<times> byte list) option" where
  "ring_Poly_decode bs = readVector (readVector readUint64) bs"

text \<open>
  The encoding of \<open>ringqp.Poly\<close>. \<open>WriteTo\<close> returns the number of bytes written with the
  writer, \<open>ReadFrom\<close> the element with the number of bytes read and the rest of the
  reader, and \<open>UnmarshalBinary\<close> accepts a slice only when decoding uses all of it.
\<close>

definition ringqp_Poly_BinarySize :: "PolyQP \<Rightarrow> nat" where
  "ringqp_Poly_BinarySize p = ring_Poly_BinarySize (Q p) + ring_Poly_BinarySize (P p)"

definition ringqp_Poly_MarshalBinary :: "PolyQP \<Rightarrow> byte list" where
  "ringqp_Poly_MarshalBinary p = ring_Poly_encode (Q p) @ ring_Poly_encode (P p)"

definition ringqp_Poly_WriteTo :: "PolyQP \<Rightarrow> byte list \<Rightarrow> int \<times> byte list" where
  "ringqp_Poly_WriteTo p w =
     (int (length (ringqp_Poly_MarshalBinary p)), w @ ringqp_Poly_MarshalBinary p)"

definition ringqp_Poly_ReadFrom :: "byte list \<Rightarrow> (PolyQP \<times> int \<times> byte list) option" where
  "ringqp_Poly_ReadFrom r =
     (case ring_Poly_decode r of
        None \<Rightarrow> None
      | Some (q, r') \<Rightarrow>
          (case ring_Poly_decode r' of
             None \<Rightarrow> None
           | Some (p, r'') \<Rightarrow> Some (\<lparr>Q = q, P = p\<rparr>, int (length r) - int (length r''), r'')))"

definition ringqp_Poly_UnmarshalBinary :: "byte list \<Rightarrow> PolyQP option" where
  "ringqp_Poly_UnmarshalBinary p =
     (case ringqp_Poly_ReadFrom p of
        None \<Rightarrow> None
      | Some (s, n, rest) \<Rightarrow> if rest = [] then Some s else None)"

text \<open>
  The methods of \<open>ShamirSecretShareQP\<close>, from the source: each is the method of the same
  name of the embedded \<open>ringqp.Poly\<close>.
\<close>

definition BinarySize :: "ShamirSecretShareQP \<Rightarrow> nat" where
  "BinarySize s = ringqp_Poly_BinarySize s"

definition WriteTo :: "ShamirSecretShareQP \<Rightarrow> byte list \<Rightarrow> int \<times> byte list" where
  "WriteTo s w = ringqp_Poly_WriteTo s w"

definition ReadFrom :: "byte list \<Rightarrow> (ShamirSecretShareQP \<times> int \<times> byte list) option" where
  "ReadFrom r = ringqp_Poly_ReadFrom r"

definition MarshalBinary :: "ShamirSecretShareQP \<Rightarrow> byte list" where
  "MarshalBinary s = ringqp_Poly_MarshalBinary s"

definition UnmarshalBinary :: "byte list \<Rightarrow> ShamirSecretShareQP option" where
  "UnmarshalBinary p = ringqp_Poly_UnmarshalBinary p"

text \<open>
  A ring element that Go can hold: every coefficient and every length is an unsigned
  64-bit integer.
\<close>

definition uint64Poly :: "Poly \<Rightarrow> bool" where
  "uint64Poly p \<longleftrightarrow> length p < 2 ^ 64
      \<and> list_all (\<lambda>v. length v < 2 ^ 64 \<and> list_all (\<lambda>c. c < 2 ^ 64) v) p"

definition uint64PolyQP :: "PolyQP \<Rightarrow> bool" where
  "uint64PolyQP s \<longleftrightarrow> uint64Poly (Q s) \<and> uint64Poly (P s)"

section \<open>Example values\<close>

text \<open>
  A parameter set with the chain \<open>Q = [7, 13]\<close>, the chain \<open>P = [11]\<close> and degree 2,
  and one with the single modulus 7 and no \<open>P\<close>.
\<close>

definition exParams :: Parameters where
  "exParams = \<lparr>RingQ = \<lparr>ModuliChain = [7, 13], RingDegree = 2\<rparr>,
               RingP = Some \<lparr>ModuliChain = [11], RingDegree = 2\<rparr>\<rparr>"

definition exParams1 :: Parameters where
  "exParams1 = \<lparr>RingQ = \<lparr>ModuliChain = [7], RingDegree = 2\<rparr>, RingP = None\<rparr>"

definition exPRNG :: PRNG where
  "exPRNG = \<lparr>draws = (\<lambda>i. 3 * i + 2), pos = 0\<rparr>"

text \<open>The combiner that \<open>NewCombiner exParams1 1 [1] 1\<close> builds.\<close>

definition exCombiner1 :: Combiner where
  "exCombiner1 = \<lparr>ringQ = RingQ exParams1, ringQP = exParams1, threshold = 1, tmp1 = [0],
        tmp2 = [0], one = [2], lagrangeCoeffs = Map.empty\<rparr>"

section \<open>Properties\<close>

subsection \<open>Levels\<close>

lemma Level_eq_iff: "Level p = Level p' \<longleftrightarrow> length p = length p'"
  by (simp add: Level_def)

lemma Level_neg_iff: "Level p > -1 \<longleftrightarrow> p \<noteq> []"
  by (cases p) (simp_all add: Level_def)

lemma ring_AtLevel_Level:
  assumes "p \<noteq> []" "length p \<le> length (ModuliChain r)"
  shows "ring_AtLevel r (Level p) = Some (r\<lparr>ModuliChain := take (length p) (ModuliChain r)\<rparr>)"
proof -
  have "nat (int (length p) - 1 + 1) = length p" by simp
  moreover have "0 < length p" using assms(1) by simp
  ultimately show ?thesis using assms(2)
    by (simp add: ring_AtLevel_def Level_def)
qed

lemma ring_Add_AtLevel:
  assumes "length p1 = n" "length p2 = n" "length p3 = n" "n \<le> length (ModuliChain r)"
  shows "ring_Add (r\<lparr>ModuliChain := take n (ModuliChain r)\<rparr>) p1 p2 p3
         = Some (pointwiseSum (ModuliChain r) p1 p2)"
  using assms by (simp add: ring_Add_def pointwiseSum_def min_def)

lemma upt_small: "[0..<1] = [0]" "[0..<2] = [0, 1]" "[0..<3] = [0, 1, 2]"
  by (simp_all add: upt_conv_Cons)

subsection \<open>Aggregation\<close>

lemma AggregateShares_closed:
  assumes a: "LevelQ share1 = LevelQ share2 \<and> LevelQ share1 = LevelQ outShare
      \<and> LevelP share1 = LevelP share2 \<and> LevelP share1 = LevelP outShare
      \<and> length (Q share1) \<le> length (ModuliChain (RingQ (ringQP thr)))
      \<and> (case RingP (ringQP thr) of None \<Rightarrow> True
          | Some rp \<Rightarrow> length (P share1) \<le> length (ModuliChain rp))"
  shows "AggregateShares thr share1 share2 outShare =
          Return None
            \<lparr>Q = pointwiseSum (ModuliChain (RingQ (ringQP thr))) (Q share1) (Q share2),
             P = (case RingP (ringQP thr) of None \<Rightarrow> P outShare
                  | Some rp \<Rightarrow> pointwiseSum (ModuliChain rp) (P share1) (P share2))\<rparr>"
proof -
  let ?r = "ringQP thr"
  have lq: "length (Q share2) = length (Q share1)" "length (Q outShare) = length (Q share1)"
    and lp: "length (P share2) = length (P share1)" "length (P outShare) = length (P share1)"
    using a by (simp_all add: LevelQ_def LevelP_def Level_eq_iff)
  have bq: "length (Q share1) \<le> length (ModuliChain (RingQ ?r))" using a by simp
  define rq where "rq = (RingQ ?r)\<lparr>ModuliChain := take (length (Q share1)) (ModuliChain (RingQ ?r))\<rparr>"
  have rq: "(if LevelQ share1 > -1 then ring_AtLevel (RingQ ?r) (LevelQ share1)
            else Some ((RingQ ?r)\<lparr>ModuliChain := []\<rparr>)) = Some rq"
  proof (cases "Q share1 = []")
    case True
    then show ?thesis by (simp add: LevelQ_def Level_def rq_def)
  next
    case False
    then show ?thesis using bq
      by (simp add: LevelQ_def Level_neg_iff ring_AtLevel_Level rq_def)
  qed
  have addq: "ring_Add rq (Q share1) (Q share2) (Q outShare)
              = Some (pointwiseSum (ModuliChain (RingQ ?r)) (Q share1) (Q share2))"
    unfolding rq_def using lq bq by (intro ring_Add_AtLevel) simp_all
  show ?thesis
  proof (cases "RingP ?r")
    case None
    have "ringqp_AtLevel ?r (LevelQ share1) (LevelP share1) = Some \<lparr>RingQ = rq, RingP = None\<rparr>"
      using rq None by (simp add: ringqp_AtLevel_def)
    then show ?thesis using a addq None
      by (simp add: AggregateShares_def ringqp_Add_def)
  next
    case (Some rp)
    have bp: "length (P share1) \<le> length (ModuliChain rp)" using a Some by simp
    show ?thesis
    proof (cases "P share1 = []")
      case True
      then have "\<not> LevelP share1 > -1" by (simp add: LevelP_def Level_neg_iff)
      then have "ringqp_AtLevel ?r (LevelQ share1) (LevelP share1) = Some \<lparr>RingQ = rq, RingP = None\<rparr>"
        using rq Some by (simp add: ringqp_AtLevel_def)
      moreover have "P outShare = []" using lp True by simp
      ultimately show ?thesis using a addq Some True
        by (simp add: AggregateShares_def ringqp_Add_def pointwiseSum_def)
    next
      case False
      define rp' where "rp' = rp\<lparr>ModuliChain := take (length (P share1)) (ModuliChain rp)\<rparr>"
      have "LevelP share1 > -1" using False by (simp add: LevelP_def Level_neg_iff)
      moreover have "ring_AtLevel rp (LevelP share1) = Some rp'"
        using False bp by (simp add: LevelP_def ring_AtLevel_Level rp'_def)
      ultimately have "ringqp_AtLevel ?r (LevelQ share1) (LevelP share1) = Some \<lparr>RingQ = rq, RingP = Some rp'\<rparr>"
        using rq Some by (simp add: ringqp_AtLevel_def)
      moreover have "ring_Add rp' (P share1) (P share2) (P outShare)
              = Some (pointwiseSum (ModuliChain rp) (P share1) (P share2))"
        unfolding rp'_def using lp bp by (intro ring_Add_AtLevel) simp_all
      ultimately show ?thesis using a addq Some
        by (simp add: AggregateShares_def ringqp_Add_def)
    qed
  qed
qed

text \<open>
  Claim C3, as stated, fails. The three operands have three \<open>Q\<close> limbs each, so all
  levels agree, and the ring of the \<open>Thresholdizer\<close> has two: \<open>AtLevel\<close> is asked for a
  level the ring does not have and \<open>AggregateShares\<close> does not return.
\<close>

theorem AggregateShares_above_ring_counterexample:
  "LevelQ \<lparr>Q = [[1, 2], [3, 4], [5, 6]], P = [[5, 6]]\<rparr> = LevelQ \<lparr>Q = [[6, 6], [12, 1], [2, 2]], P = [[7, 4]]\<rparr>
   \<and> LevelQ \<lparr>Q = [[1, 2], [3, 4], [5, 6]], P = [[5, 6]]\<rparr> = LevelQ \<lparr>Q = [[0, 0], [0, 0], [0, 0]], P = [[0, 0]]\<rparr>
   \<and> LevelP \<lparr>Q = [[1, 2], [3, 4], [5, 6]], P = [[5, 6]]\<rparr> = LevelP \<lparr>Q = [[6, 6], [12, 1], [2, 2]], P = [[7, 4]]\<rparr>
   \<and> LevelP \<lparr>Q = [[1, 2], [3, 4], [5, 6]], P = [[5, 6]]\<rparr> = LevelP \<lparr>Q = [[0, 0], [0, 0], [0, 0]], P = [[0, 0]]\<rparr>
   \<and> AggregateShares (NewThresholdizer exParams exPRNG)
         \<lparr>Q = [[1, 2], [3, 4], [5, 6]], P = [[5, 6]]\<rparr> \<lparr>Q = [[6, 6], [12, 1], [2, 2]], P = [[7, 4]]\<rparr>
         \<lparr>Q = [[0, 0], [0, 0], [0, 0]], P = [[0, 0]]\<rparr>
       = Fault"
  by (simp add: AggregateShares_def LevelQ_def LevelP_def Level_def ringqp_AtLevel_def
      ring_AtLevel_def NewThresholdizer_def exParams_def)

text \<open>
  Claim C3, amended. \<open>AggregateShares\<close> returns the level-mismatch error and leaves
  \<open>outShare\<close> as it was when the \<open>Q\<close> or the \<open>P\<close> levels of the three operands differ;
  the comparison is the first thing it does. When the levels agree and the shares have
  no more limbs than the chains of the ring of the \<open>Thresholdizer\<close>, it returns no error
  and \<open>outShare\<close> holds the pointwise sum of \<open>share1\<close> and \<open>share2\<close>, limb by limb over
  the active chain (the \<open>P\<close> part is left alone when the ring has no \<open>P\<close> chain).
\<close>

theorem AggregateShares_levels:
  "(LevelQ share1 \<noteq> LevelQ share2 \<or> LevelQ share1 \<noteq> LevelQ outShare
      \<or> LevelP share1 \<noteq> LevelP share2 \<or> LevelP share1 \<noteq> LevelP outShare
    \<longrightarrow> AggregateShares thr share1 share2 outShare = Return (Some LevelMismatch) outShare)
   \<and> (LevelQ share1 = LevelQ share2 \<and> LevelQ share1 = LevelQ outShare
      \<and> LevelP share1 = LevelP share2 \<and> LevelP share1 = LevelP outShare
      \<and> length (Q share1) \<le> length (ModuliChain (RingQ (ringQP thr)))
      \<and> (case RingP (ringQP thr) of None \<Rightarrow> True
          | Some rp \<Rightarrow> length (P share1) \<le> length (ModuliChain rp))
    \<longrightarrow> AggregateShares thr share1 share2 outShare =
          Return None
            \<lparr>Q = pointwiseSum (ModuliChain (RingQ (ringQP thr))) (Q share1) (Q share2),
             P = (case RingP (ringQP thr) of None \<Rightarrow> P outShare
                  | Some rp \<Rightarrow> pointwiseSum (ModuliChain rp) (P share1) (P share2))\<rparr>)"
proof (intro conjI impI)
  assume "LevelQ share1 \<noteq> LevelQ share2 \<or> LevelQ share1 \<noteq> LevelQ outShare
      \<or> LevelP share1 \<noteq> LevelP share2 \<or> LevelP share1 \<noteq> LevelP outShare"
  then show "AggregateShares thr share1 share2 outShare = Return (Some LevelMismatch) outShare"
    by (simp add: AggregateShares_def)
next
  assume "LevelQ share1 = LevelQ share2 \<and> LevelQ share1 = LevelQ outShare
      \<and> LevelP share1 = LevelP share2 \<and> LevelP share1 = LevelP outShare
      \<and> length (Q share1) \<le> length (ModuliChain (RingQ (ringQP thr)))
      \<and> (case RingP (ringQP thr) of None \<Rightarrow> True
          | Some rp \<Rightarrow> length (P share1) \<le> length (ModuliChain rp))"
  then show "AggregateShares thr share1 share2 outShare =
          Return None
            \<lparr>Q = pointwiseSum (ModuliChain (RingQ (ringQP thr))) (Q share1) (Q share2),
             P = (case RingP (ringQP thr) of None \<Rightarrow> P outShare
                  | Some rp \<Rightarrow> pointwiseSum (ModuliChain rp) (P share1) (P share2))\<rparr>"
    by (rule AggregateShares_closed)
qed

theorem AggregateShares_levels_witness:
  "(LevelQ \<lparr>Q = [[1, 2]], P = [[3, 4]]\<rparr> \<noteq> LevelQ \<lparr>Q = [[1, 2], [5, 6]], P = [[3, 4]]\<rparr>
    \<and> AggregateShares (NewThresholdizer exParams exPRNG)
         \<lparr>Q = [[1, 2]], P = [[3, 4]]\<rparr> \<lparr>Q = [[1, 2], [5, 6]], P = [[3, 4]]\<rparr>
         \<lparr>Q = [[0, 0]], P = [[0, 0]]\<rparr>
       = Return (Some LevelMismatch) \<lparr>Q = [[0, 0]], P = [[0, 0]]\<rparr>)
   \<and> (LevelQ \<lparr>Q = [[1, 2], [3, 4]], P = [[5, 6]]\<rparr> = LevelQ \<lparr>Q = [[6, 6], [12, 1]], P = [[7, 4]]\<rparr>
    \<and> AggregateShares (NewThresholdizer exParams exPRNG)
         \<lparr>Q = [[1, 2], [3, 4]], P = [[5, 6]]\<rparr> \<lparr>Q = [[6, 6], [12, 1]], P = [[7, 4]]\<rparr>
         \<lparr>Q = [[0, 0], [0, 0]], P = [[0, 0]]\<rparr>
       = Return None \<lparr>Q = [[0, 1], [2, 5]], P = [[1, 10]]\<rparr>)"
  using AggregateShares_levels [of "\<lparr>Q = [[1, 2]], P = [[3, 4]]\<rparr>"
          "\<lparr>Q = [[1, 2], [5, 6]], P = [[3, 4]]\<rparr>" "\<lparr>Q = [[0, 0]], P = [[0, 0]]\<rparr>"
          "NewThresholdizer exParams exPRNG"]
        AggregateShares_levels [of "\<lparr>Q = [[1, 2], [3, 4]], P = [[5, 6]]\<rparr>"
          "\<lparr>Q = [[6, 6], [12, 1]], P = [[7, 4]]\<rparr>" "\<lparr>Q = [[0, 0], [0, 0]], P = [[0, 0]]\<rparr>"
          "NewThresholdizer exParams exPRNG"]
  by (simp add: LevelQ_def LevelP_def Level_def NewThresholdizer_def exParams_def
        pointwiseSum_def upt_small)

subsection \<open>Combination: the checks\<close>

text \<open>
  Claim C4. With fewer active identities than the threshold, \<open>GenAdditiveShareQ\<close> and
  \<open>GenAdditiveShareQP\<close> return the insufficient-parties error; it is their first
  statement, so no arithmetic has happened and \<open>skOut\<close> is what it was; no additive
  share is returned.
\<close>

theorem GenAdditiveShare_insufficient:
  "int (length activesPoints) < threshold cmb \<Longrightarrow>
     GenAdditiveShareQ cmb activesPoints ownPoint ownShareQ skOutQ
       = Return (Some InsufficientParties) skOutQ
     \<and> GenAdditiveShareQP cmb activesPoints ownPoint ownShare skOut
       = Return (Some InsufficientParties) skOut"
  by (simp add: GenAdditiveShareQ_def GenAdditiveShareQP_def)

theorem GenAdditiveShare_insufficient_witness:
  "int (length [1 :: 64 word, 2]) < threshold
       \<lparr>ringQ = RingQ exParams, ringQP = exParams, threshold = 3, tmp1 = [0, 0, 0],
        tmp2 = [0, 0, 0], one = [2, 3, 5], lagrangeCoeffs = [2 \<mapsto> [4, 6, 10], 3 \<mapsto> [3, 11, 2]]\<rparr>
   \<and> GenAdditiveShareQ
       \<lparr>ringQ = RingQ exParams, ringQP = exParams, threshold = 3, tmp1 = [0, 0, 0],
        tmp2 = [0, 0, 0], one = [2, 3, 5], lagrangeCoeffs = [2 \<mapsto> [4, 6, 10], 3 \<mapsto> [3, 11, 2]]\<rparr>
       [1, 2] 1 [[1, 2], [3, 4]] [[9, 9], [9, 9]]
     = Return (Some InsufficientParties) [[9, 9], [9, 9]]
   \<and> GenAdditiveShareQP
       \<lparr>ringQ = RingQ exParams, ringQP = exParams, threshold = 3, tmp1 = [0, 0, 0],
        tmp2 = [0, 0, 0], one = [2, 3, 5], lagrangeCoeffs = [2 \<mapsto> [4, 6, 10], 3 \<mapsto> [3, 11, 2]]\<rparr>
       [1, 2] 1 \<lparr>Q = [[1, 2], [3, 4]], P = [[5, 6]]\<rparr> \<lparr>Q = [[9, 9], [9, 9]], P = [[9, 9]]\<rparr>
     = Return (Some InsufficientParties) \<lparr>Q = [[9, 9], [9, 9]], P = [[9, 9]]\<rparr>"
proof -
  have h: "int (length [1 :: 64 word, 2]) < threshold
       \<lparr>ringQ = RingQ exParams, ringQP = exParams, threshold = 3, tmp1 = [0, 0, 0],
        tmp2 = [0, 0, 0], one = [2, 3, 5], lagrangeCoeffs = [2 \<mapsto> [4, 6, 10], 3 \<mapsto> [3, 11, 2]]\<rparr>"
    by simp
  show ?thesis
    using h GenAdditiveShare_insufficient [OF h, of 1 "[[1, 2], [3, 4]]" "[[9, 9], [9, 9]]"
        "\<lparr>Q = [[1, 2], [3, 4]], P = [[5, 6]]\<rparr>" "\<lparr>Q = [[9, 9], [9, 9]], P = [[9, 9]]\<rparr>"]
    by simp
qed

subsection \<open>Closed forms of the scalar operations and of \<open>NewCombiner\<close>\<close>

lemma NewRNSScalarFromUInt64_chain:
  "ringqp_NewRNSScalarFromUInt64 r v = map (\<lambda>q. unat v mod q) (chainQP r)"
  by (simp add: ringqp_NewRNSScalarFromUInt64_def ring_NewRNSScalarFromUInt64_def chainQP_def
      split: option.split)

lemma NewRNSScalar_chain: "ringqp_NewRNSScalar r = replicate (length (chainQP r)) 0"
  by (simp add: ringqp_NewRNSScalar_def ring_NewRNSScalar_def chainQP_def replicate_add
      split: option.split)

lemma map_upt_append_shift:
  "map f [0..<m] @ map (\<lambda>i. f (i + m)) [0..<n] = map f [0..<m + n]"
  by (rule nth_equalityI) (auto simp: nth_append)

lemma ringqp_scalar2_closed:
  assumes f: "\<And>rr a b c. length a = length (ModuliChain rr) \<Longrightarrow> length b = length (ModuliChain rr)
              \<Longrightarrow> length c = length (ModuliChain rr)
              \<Longrightarrow> f rr a b c = Some (map (\<lambda>i. g (a ! i) (b ! i) (ModuliChain rr ! i)) [0..<length (ModuliChain rr)])"
    and l: "length s1 = length (chainQP r)" "length s2 = length (chainQP r)"
           "length sout = length (chainQP r)"
  shows "ringqp_scalar2 f r s1 s2 sout
         = Some (map (\<lambda>i. g (s1 ! i) (s2 ! i) (chainQP r ! i)) [0..<length (chainQP r)])"
proof (cases "RingP r")
  case None
  then have c: "chainQP r = ModuliChain (RingQ r)" by (simp add: chainQP_def)
  show ?thesis using None l f [of "take (length (chainQP r)) s1" "RingQ r" "take (length (chainQP r)) s2"
        "take (length (chainQP r)) sout"]
    by (simp add: ringqp_scalar2_def ModuliChainLength_def c)
next
  case (Some rp)
  let ?m = "length (ModuliChain (RingQ r))" and ?n = "length (ModuliChain rp)"
  have c: "chainQP r = ModuliChain (RingQ r) @ ModuliChain rp" using Some by (simp add: chainQP_def)
  have 1: "f (RingQ r) (take ?m s1) (take ?m s2) (take ?m sout)
        = Some (map (\<lambda>i. g (s1 ! i) (s2 ! i) (chainQP r ! i)) [0..<?m])"
    using l by (subst f) (simp_all add: c nth_append)
  have 2: "f rp (drop ?m s1) (drop ?m s2) (drop ?m sout)
        = Some (map (\<lambda>i. g (s1 ! (i + ?m)) (s2 ! (i + ?m)) (chainQP r ! (i + ?m))) [0..<?n])"
    using l by (subst f) (simp_all add: c nth_append add.commute)
  show ?thesis using Some l 1 2
      map_upt_append_shift [of "\<lambda>i. g (s1 ! i) (s2 ! i) (chainQP r ! i)" ?m ?n]
    by (simp add: ringqp_scalar2_def ModuliChainLength_def c)
qed

lemma ringqp_SubRNSScalar_closed:
  assumes "length s1 = length (chainQP r)" "length s2 = length (chainQP r)"
          "length sout = length (chainQP r)"
  shows "ringqp_SubRNSScalar r s1 s2 sout
         = Some (map (\<lambda>i. if s2 ! i > s1 ! i then s1 ! i + chainQP r ! i - s2 ! i else s1 ! i - s2 ! i)
                   [0..<length (chainQP r)])"
  unfolding ringqp_SubRNSScalar_def
  by (rule ringqp_scalar2_closed [where g = "\<lambda>a b q. if b > a then a + q - b else a - b"])
     (simp_all add: ring_SubRNSScalar_def Let_def assms)

lemma ringqp_MulRNSScalar_closed:
  assumes "length s1 = length (chainQP r)" "length s2 = length (chainQP r)"
          "length sout = length (chainQP r)"
  shows "ringqp_MulRNSScalar r s1 s2 sout
         = Some (map (\<lambda>i. MRed (s1 ! i) (s2 ! i) (chainQP r ! i)) [0..<length (chainQP r)])"
  unfolding ringqp_MulRNSScalar_def
  by (rule ringqp_scalar2_closed [where g = MRed]) (simp_all add: ring_MulRNSScalar_def Let_def assms)

lemma ringqp_Inverse_closed:
  assumes "length a = length (chainQP r)"
  shows "ringqp_Inverse r a
         = Some (map (\<lambda>i. ModexpMontgomery (a ! i) (chainQP r ! i - 2) (chainQP r ! i))
                   [0..<length (chainQP r)])"
  unfolding ringqp_Inverse_def
  by (rule ringqp_scalar2_closed [where g = "\<lambda>x y q. ModexpMontgomery x (q - 2) q"])
     (simp_all add: ring_Inverse_def Let_def assms)

lemma map_by_index: "map (\<lambda>i. f (xs ! i)) [0..<length xs] = map f xs"
  by (rule nth_equalityI) simp_all

lemma lagrangeCoeff_closed:
  assumes "length lagCoeff = length (chainQP (ringQP cmb))"
  shows "lagrangeCoeff cmb thisKey thatKey lagCoeff
         = Some (map (\<lambda>q. lagrangeLimb q thisKey thatKey) (chainQP (ringQP cmb)))"
proof -
  let ?c = "chainQP (ringQP cmb)"
  have "map (\<lambda>q. lagrangeLimb q thisKey thatKey) ?c
        = map (\<lambda>i. lagrangeLimb (?c ! i) thisKey thatKey) [0..<length ?c]"
    by (rule nth_equalityI) simp_all
  then show ?thesis using assms
    by (simp add: lagrangeCoeff_def NewRNSScalarFromUInt64_chain ringqp_SubRNSScalar_closed
        ringqp_Inverse_closed ringqp_MulRNSScalar_closed lagrangeLimb_def Let_def
        cong: map_cong)
qed


lemma mformLoop_nth:
  assumes "k \<le> length qs"
  shows "length (fold (\<lambda>i acc. acc[i + off := MForm (acc ! (i + off)) (qs ! i)]) [0..<k] s) = length s
       \<and> (\<forall>j < length s. fold (\<lambda>i acc. acc[i + off := MForm (acc ! (i + off)) (qs ! i)]) [0..<k] s ! j
              = (if off \<le> j \<and> j < off + k then MForm (s ! j) (qs ! (j - off)) else s ! j))"
  using assms
proof (induction k)
  case 0
  then show ?case by simp
next
  case (Suc k)
  then have ih: "length (fold (\<lambda>i acc. acc[i + off := MForm (acc ! (i + off)) (qs ! i)]) [0..<k] s) = length s"
    "\<And>j. j < length s \<Longrightarrow> fold (\<lambda>i acc. acc[i + off := MForm (acc ! (i + off)) (qs ! i)]) [0..<k] s ! j
              = (if off \<le> j \<and> j < off + k then MForm (s ! j) (qs ! (j - off)) else s ! j)"
    by simp_all
  show ?case
  proof (intro conjI allI impI)
    show "length (fold (\<lambda>i acc. acc[i + off := MForm (acc ! (i + off)) (qs ! i)]) [0..<Suc k] s) = length s"
      by (simp add: ih)
  next
    fix j assume j: "j < length s"
    show "fold (\<lambda>i acc. acc[i + off := MForm (acc ! (i + off)) (qs ! i)]) [0..<Suc k] s ! j
          = (if off \<le> j \<and> j < off + Suc k then MForm (s ! j) (qs ! (j - off)) else s ! j)"
    proof (cases "j = k + off")
      case True
      then show ?thesis using j by (simp add: ih)
    next
      case False
      then have "(j < off + Suc k) = (j < off + k)" by auto
      then show ?thesis using j False by (simp add: ih)
    qed
  qed
qed

lemma mformLoops_closed:
  assumes l: "length s0 = length (chainQP params)"
  shows "(case RingP params of
      None \<Rightarrow> mformLoop (ModuliChain (RingQ params)) 0 s0
    | Some rp \<Rightarrow> mformLoop (ModuliChain rp) (ModuliChainLength (RingQ params))
                   (mformLoop (ModuliChain (RingQ params)) 0 s0))
   = map (\<lambda>i. MForm (s0 ! i) (chainQP params ! i)) [0..<length (chainQP params)]"
proof (cases "RingP params")
  case None
  then have c: "chainQP params = ModuliChain (RingQ params)" by (simp add: chainQP_def)
  show ?thesis using None l
      mformLoop_nth [of "length (ModuliChain (RingQ params))" "ModuliChain (RingQ params)" 0 s0]
    by (intro nth_equalityI) (simp_all add: mformLoop_def c)
next
  case (Some rp)
  let ?qs = "ModuliChain (RingQ params)" and ?ps = "ModuliChain rp"
  let ?s1 = "mformLoop ?qs 0 s0"
  have c: "chainQP params = ?qs @ ?ps" using Some by (simp add: chainQP_def)
  have l0: "length s0 = length ?qs + length ?ps" using l c by simp
  have 1: "length ?s1 = length s0"
    "\<And>j. j < length s0 \<Longrightarrow> ?s1 ! j = (if j < length ?qs then MForm (s0 ! j) (?qs ! j) else s0 ! j)"
    using mformLoop_nth [of "length ?qs" ?qs 0 s0] by (simp_all add: mformLoop_def)
  have 2: "length (mformLoop ?ps (length ?qs) ?s1) = length ?s1"
    "\<And>j. j < length ?s1 \<Longrightarrow> mformLoop ?ps (length ?qs) ?s1 ! j
         = (if length ?qs \<le> j \<and> j < length ?qs + length ?ps
            then MForm (?s1 ! j) (?ps ! (j - length ?qs)) else ?s1 ! j)"
    using mformLoop_nth [of "length ?ps" ?ps "length ?qs" ?s1] by (simp_all add: mformLoop_def)
  show ?thesis using Some
    by (intro nth_equalityI)
       (auto simp: c ModuliChainLength_def 1 2 l0 nth_append)
qed

lemma one_closed:
  "(case RingP params of
      None \<Rightarrow> mformLoop (ModuliChain (RingQ params)) 0 (ringqp_NewRNSScalarFromUInt64 params 1)
    | Some rp \<Rightarrow> mformLoop (ModuliChain rp) (ModuliChainLength (RingQ params))
                   (mformLoop (ModuliChain (RingQ params)) 0 (ringqp_NewRNSScalarFromUInt64 params 1)))
   = map MontgomeryOne (chainQP params)"
  by (subst mformLoops_closed)
     (auto simp: NewRNSScalarFromUInt64_chain MontgomeryOne_def intro!: nth_equalityI)

lemma coeffLoop_closed:
  "coeffLoop cmb own others
   = Some (cmb\<lparr>lagrangeCoeffs :=
        (\<lambda>k. if k \<in> set others \<and> k \<noteq> own
              then Some (map (\<lambda>q. lagrangeLimb q own k) (chainQP (ringQP cmb)))
              else lagrangeCoeffs cmb k)\<rparr>)"
proof (induction others arbitrary: cmb)
  case Nil
  then show ?case by simp
next
  case (Cons spk others)
  show ?case
  proof (cases "spk = own")
    case True
    then show ?thesis using Cons [of cmb] by (auto simp: fun_eq_iff intro!: arg_cong [where f = Some])
  next
    case False
    have "lagrangeCoeff cmb own spk (ringqp_NewRNSScalar (ringQP cmb))
          = Some (map (\<lambda>q. lagrangeLimb q own spk) (chainQP (ringQP cmb)))"
      by (rule lagrangeCoeff_closed) (simp add: NewRNSScalar_chain)
    then show ?thesis using False
      by (simp add: Cons fun_eq_iff)
  qed
qed

lemma NewCombiner_closed:
  "NewCombiner params own others thresh
   = Some \<lparr>ringQ = RingQ params, ringQP = params, threshold = thresh,
           tmp1 = replicate (length (chainQP params)) 0,
           tmp2 = replicate (length (chainQP params)) 0,
           one = map MontgomeryOne (chainQP params),
           lagrangeCoeffs = (\<lambda>k. if k \<in> set others \<and> k \<noteq> own
              then Some (map (\<lambda>q. lagrangeLimb q own k) (chainQP params)) else None)\<rparr>"
  unfolding NewCombiner_def Let_def one_closed coeffLoop_closed NewRNSScalar_chain
  by (simp cong: if_cong)

subsection \<open>Combination does not compare levels\<close>

lemma RInv_7: "RInv 7 = 4"
  by (simp add: RInv_def)

lemma NewCombiner_exParams1: "NewCombiner exParams1 1 [1] 1 = Some exCombiner1"
  by (simp add: NewCombiner_def exParams1_def exCombiner1_def ringqp_NewRNSScalarFromUInt64_def
      ring_NewRNSScalarFromUInt64_def ModuliChainLength_def mformLoop_def MForm_def
      ringqp_NewRNSScalar_def ring_NewRNSScalar_def upt_small)

text \<open>
  Claim C2, as stated, fails. A combiner over the one-limb chain \<open>[7]\<close> is given a share
  with two limbs (level 1) and an output key with one limb (level 0): both
  \<open>GenAdditiveShareQP\<close> and \<open>GenAdditiveShareQ\<close> return without error and overwrite the
  output with the product on the limb of the ring.
\<close>

theorem GenAdditiveShare_level_counterexample:
  "NewCombiner exParams1 1 [1] 1 = Some exCombiner1
  \<and> LevelQ \<lparr>Q = [[1, 2], [3, 4]], P = []\<rparr> \<noteq> LevelQ \<lparr>Q = [[0, 0]], P = []\<rparr>
  \<and> GenAdditiveShareQP exCombiner1 [1] 1 \<lparr>Q = [[1, 2], [3, 4]], P = []\<rparr> \<lparr>Q = [[0, 0]], P = []\<rparr>
      = Return None \<lparr>Q = [[1, 2]], P = []\<rparr>
  \<and> Level [[1, 2], [3, 4]] \<noteq> Level [[0, 0]]
  \<and> GenAdditiveShareQ exCombiner1 [1] 1 [[1, 2], [3, 4]] [[0, 0]] = Return None [[1, 2]]"
proof -
  have "LevelQ \<lparr>Q = [[1, 2], [3, 4]], P = []\<rparr> \<noteq> LevelQ \<lparr>Q = [[0, 0]], P = []\<rparr>"
    "Level [[1, 2], [3, 4]] \<noteq> Level [[0, 0]]"
    by (simp_all add: LevelQ_def Level_def)
  moreover have "GenAdditiveShareQP exCombiner1 [1] 1 \<lparr>Q = [[1, 2], [3, 4]], P = []\<rparr> \<lparr>Q = [[0, 0]], P = []\<rparr>
      = Return None \<lparr>Q = [[1, 2]], P = []\<rparr>"
    by (simp add: GenAdditiveShareQP_def exCombiner1_def
      exParams1_def copy_slice_def ringqp_MulRNSScalarMontgomery_def ring_MulRNSScalarMontgomery_def
      ModuliChainLength_def MRed_def RInv_7 upt_small)
  moreover have "GenAdditiveShareQ exCombiner1 [1] 1 [[1, 2], [3, 4]] [[0, 0]] = Return None [[1, 2]]"
    by (simp add: GenAdditiveShareQ_def exCombiner1_def
      exParams1_def copy_slice_def ring_MulRNSScalarMontgomery_def
      MRed_def RInv_7 upt_small)
  ultimately show ?thesis using NewCombiner_exParams1 by blast
qed

text \<open>
  Claim C2, amended. \<open>GenAdditiveShareQ\<close> and \<open>GenAdditiveShareQP\<close> compare no levels and
  never return the level-mismatch error: an error they return is the
  insufficient-parties error, returned when fewer identities than the threshold are
  active, with \<open>skOut\<close> as it was.
\<close>

theorem GenAdditiveShare_only_error:
  "(GenAdditiveShareQ cmb activesPoints ownPoint ownShareQ skOutQ = Return (Some e) outQ
      \<longrightarrow> e = InsufficientParties \<and> int (length activesPoints) < threshold cmb \<and> outQ = skOutQ)
   \<and> (GenAdditiveShareQP cmb activesPoints ownPoint ownShare skOut = Return (Some e') out
      \<longrightarrow> e' = InsufficientParties \<and> int (length activesPoints) < threshold cmb \<and> out = skOut)"
  by (auto simp: GenAdditiveShareQ_def GenAdditiveShareQP_def split: if_splits option.splits)

theorem GenAdditiveShare_only_error_witness:
  "GenAdditiveShareQ (exCombiner1\<lparr>threshold := 2\<rparr>) [1] 1 [[1, 2], [3, 4]] [[0, 0]]
     = Return (Some InsufficientParties) [[0, 0]]
   \<and> GenAdditiveShareQP (exCombiner1\<lparr>threshold := 2\<rparr>) [1] 1
       \<lparr>Q = [[1, 2], [3, 4]], P = []\<rparr> \<lparr>Q = [[0, 0]], P = []\<rparr>
     = Return (Some InsufficientParties) \<lparr>Q = [[0, 0]], P = []\<rparr>
   \<and> int (length [1 :: 64 word]) < threshold (exCombiner1\<lparr>threshold := 2\<rparr>)"
proof -
  have q: "GenAdditiveShareQ (exCombiner1\<lparr>threshold := 2\<rparr>) [1] 1 [[1, 2], [3, 4]] [[0, 0]]
     = Return (Some InsufficientParties) [[0, 0]]"
    by (simp add: GenAdditiveShareQ_def exCombiner1_def)
  have qp: "GenAdditiveShareQP (exCombiner1\<lparr>threshold := 2\<rparr>) [1] 1
       \<lparr>Q = [[1, 2], [3, 4]], P = []\<rparr> \<lparr>Q = [[0, 0]], P = []\<rparr>
     = Return (Some InsufficientParties) \<lparr>Q = [[0, 0]], P = []\<rparr>"
    by (simp add: GenAdditiveShareQP_def exCombiner1_def)
  show ?thesis
    using q qp
      GenAdditiveShare_only_error [of "exCombiner1\<lparr>threshold := 2\<rparr>" "[1]" 1 "[[1, 2], [3, 4]]"
        "[[0, 0]]" InsufficientParties "[[0, 0]]" "\<lparr>Q = [[1, 2], [3, 4]], P = []\<rparr>"
        "\<lparr>Q = [[0, 0]], P = []\<rparr>" InsufficientParties "\<lparr>Q = [[0, 0]], P = []\<rparr>"]
    by blast
qed

subsection \<open>Combination: the algorithm\<close>

lemma ModexpMontgomery_numeral:
  "ModexpMontgomery x (numeral n) q = MRed (ModexpMontgomery x (pred_numeral n) q) x q"
  by (simp add: numeral_eq_Suc)

lemma montgomeryProduct_Cons:
  "montgomeryProduct q start (c # cs) = montgomeryProduct q (MRed start c q) cs"
  by (simp add: montgomeryProduct_def)

lemma montgomeryProduct_Nil: "montgomeryProduct q start [] = start"
  by (simp add: montgomeryProduct_def)

lemma prodLoopQP_closed:
  assumes "length prd = length (chainQP (ringQP cmb))"
    and "\<forall>a \<in> set actives. a \<noteq> own \<longrightarrow>
           (\<exists>c. lagrangeCoeffs cmb a = Some c \<and> length c = length (chainQP (ringQP cmb)))"
  shows "prodLoopQP cmb own actives prd
         = Some (map (\<lambda>i. montgomeryProduct (chainQP (ringQP cmb) ! i) (prd ! i)
                        (map (\<lambda>a. lookupCoeff (lagrangeCoeffs cmb) a ! i)
                           (filter (\<lambda>a. a \<noteq> own) actives)))
                   [0..<length (chainQP (ringQP cmb))])"
  using assms
proof (induction actives arbitrary: prd)
  case Nil
  then show ?case
    by (auto simp: montgomeryProduct_Nil intro!: nth_equalityI)
next
  case (Cons a actives)
  show ?case
  proof (cases "a = own")
    case True
    then show ?thesis using Cons by simp
  next
    case False
    then obtain c where c: "lagrangeCoeffs cmb a = Some c" "length c = length (chainQP (ringQP cmb))"
      using Cons.prems by auto
    let ?prd = "map (\<lambda>i. MRed (prd ! i) (c ! i) (chainQP (ringQP cmb) ! i)) [0..<length (chainQP (ringQP cmb))]"
    have m: "ringqp_MulRNSScalar (ringQP cmb) prd (lookupCoeff (lagrangeCoeffs cmb) a) prd = Some ?prd"
      using c Cons.prems(1) by (simp add: ringqp_MulRNSScalar_closed lookupCoeff_def)
    have "prodLoopQP cmb own actives ?prd
         = Some (map (\<lambda>i. montgomeryProduct (chainQP (ringQP cmb) ! i) (?prd ! i)
                        (map (\<lambda>a. lookupCoeff (lagrangeCoeffs cmb) a ! i)
                           (filter (\<lambda>a. a \<noteq> own) actives)))
                   [0..<length (chainQP (ringQP cmb))])"
      using Cons.prems by (intro Cons.IH) simp_all
    then show ?thesis using False m c
      by (simp add: montgomeryProduct_Cons lookupCoeff_def cong: map_cong)
  qed
qed

lemma ringqp_scalar2_short:
  assumes "chainQP r \<noteq> []"
    and f: "\<And>rr a c. ModuliChain rr \<noteq> [] \<Longrightarrow> f rr a [] c = None"
  shows "ringqp_scalar2 f r s1 [] sout = None"
proof (cases "ModuliChain (RingQ r) = []")
  case False
  then show ?thesis by (simp add: ringqp_scalar2_def ModuliChainLength_def)
next
  case True
  then obtain rp where "RingP r = Some rp" "ModuliChain rp \<noteq> []"
    using assms(1) by (auto simp: chainQP_def split: option.splits)
  then show ?thesis using True f [of rp]
    by (simp add: ringqp_scalar2_def ModuliChainLength_def split: option.splits)
qed

lemma ringqp_MulRNSScalar_nil:
  "chainQP r \<noteq> [] \<Longrightarrow> ringqp_MulRNSScalar r s1 [] sout = None"
  unfolding ringqp_MulRNSScalar_def
  by (rule ringqp_scalar2_short) (simp_all add: ring_MulRNSScalar_def Let_def)

lemma prodLoopQP_missing:
  assumes "chainQP (ringQP cmb) \<noteq> []"
    and "\<exists>a \<in> set actives. a \<noteq> own \<and> lagrangeCoeffs cmb a = None"
  shows "prodLoopQP cmb own actives prd = None"
  using assms(2)
proof (induction actives arbitrary: prd)
  case Nil
  then show ?case by simp
next
  case (Cons a actives)
  show ?case
  proof (cases "a \<noteq> own \<and> lagrangeCoeffs cmb a = None")
    case True
    then show ?thesis using assms(1)
      by (simp add: lookupCoeff_def ringqp_MulRNSScalar_nil)
  next
    case False
    then have "\<exists>a \<in> set actives. a \<noteq> own \<and> lagrangeCoeffs cmb a = None"
      using Cons.prems by auto
    then show ?thesis using Cons.IH by (simp split: option.splits)
  qed
qed

lemma prodLoopQ_closed:
  assumes "length (ModuliChain (ringQ cmb)) \<le> length prd"
    and "\<forall>a \<in> set actives. a \<noteq> own \<longrightarrow>
           (\<exists>c. lagrangeCoeffs cmb a = Some c \<and> length (ModuliChain (ringQ cmb)) \<le> length c)"
  shows "prodLoopQ cmb own actives prd
         = Some (map (\<lambda>i. montgomeryProduct (ModuliChain (ringQ cmb) ! i) (prd ! i)
                        (map (\<lambda>a. lookupCoeff (lagrangeCoeffs cmb) a ! i)
                           (filter (\<lambda>a. a \<noteq> own) actives)))
                   [0..<length (ModuliChain (ringQ cmb))]
                 @ drop (length (ModuliChain (ringQ cmb))) prd)"
  using assms
proof (induction actives arbitrary: prd)
  case Nil
  then show ?case
    by (auto simp: montgomeryProduct_Nil nth_append intro!: nth_equalityI)
next
  case (Cons a actives)
  let ?qs = "ModuliChain (ringQ cmb)"
  show ?case
  proof (cases "a = own")
    case True
    then show ?thesis using Cons by simp
  next
    case False
    then obtain c where c: "lagrangeCoeffs cmb a = Some c" "length ?qs \<le> length c"
      using Cons.prems by auto
    let ?prd = "map (\<lambda>i. MRed (prd ! i) (c ! i) (?qs ! i)) [0..<length ?qs] @ drop (length ?qs) prd"
    have m: "ring_MulRNSScalar (ringQ cmb) prd (lookupCoeff (lagrangeCoeffs cmb) a) prd = Some ?prd"
      using c Cons.prems(1) by (simp add: ring_MulRNSScalar_def Let_def lookupCoeff_def)
    have "prodLoopQ cmb own actives ?prd
         = Some (map (\<lambda>i. montgomeryProduct (?qs ! i) (?prd ! i)
                        (map (\<lambda>a. lookupCoeff (lagrangeCoeffs cmb) a ! i)
                           (filter (\<lambda>a. a \<noteq> own) actives)))
                   [0..<length ?qs] @ drop (length ?qs) ?prd)"
      using Cons.prems by (intro Cons.IH) simp_all
    then show ?thesis using False m c
      by (simp add: montgomeryProduct_Cons lookupCoeff_def nth_append cong: map_cong)
  qed
qed

lemma prodLoopQ_missing:
  assumes "ModuliChain (ringQ cmb) \<noteq> []"
    and "\<exists>a \<in> set actives. a \<noteq> own \<and> lagrangeCoeffs cmb a = None"
  shows "prodLoopQ cmb own actives prd = None"
  using assms(2)
proof (induction actives arbitrary: prd)
  case Nil
  then show ?case by simp
next
  case (Cons a actives)
  show ?case
  proof (cases "a \<noteq> own \<and> lagrangeCoeffs cmb a = None")
    case True
    then show ?thesis using assms(1)
      by (simp add: lookupCoeff_def ring_MulRNSScalar_def Let_def)
  next
    case False
    then have "\<exists>a \<in> set actives. a \<noteq> own \<and> lagrangeCoeffs cmb a = None"
      using Cons.prems by auto
    then show ?thesis using Cons.IH by (simp split: option.splits)
  qed
qed


lemma mulLimbs_take:
  "length qs \<le> n \<Longrightarrow> mulLimbs qs p (take n s) = mulLimbs qs p s"
  by (simp add: mulLimbs_def)

lemma ringqp_MulRNSScalarMontgomery_closed:
  assumes "length scalar = length (chainQP r)" "atRingLevel r ip" "atRingLevel r op"
  shows "ringqp_MulRNSScalarMontgomery r ip scalar op
         = Some \<lparr>Q = mulLimbs (ModuliChain (RingQ r)) (Q ip) scalar,
                 P = (case RingP r of None \<Rightarrow> P op
                      | Some rp \<Rightarrow> mulLimbs (ModuliChain rp) (P ip)
                                    (drop (length (ModuliChain (RingQ r))) scalar))\<rparr>"
  using assms
  by (auto simp: ringqp_MulRNSScalarMontgomery_def ring_MulRNSScalarMontgomery_def Let_def
      ModuliChainLength_def chainQP_def atRingLevel_def mulLimbs_def split: option.splits)

lemma GenAdditiveShareQP_closed:
  assumes t: "0 \<le> threshold cmb" "threshold cmb \<le> int (length activesPoints)"
    and l: "length (tmp2 cmb) = length (chainQP (ringQP cmb))"
           "length (one cmb) = length (chainQP (ringQP cmb))"
    and c: "\<forall>a \<in> set (take (nat (threshold cmb)) activesPoints). a \<noteq> ownPoint \<longrightarrow>
           (\<exists>c. lagrangeCoeffs cmb a = Some c \<and> length c = length (chainQP (ringQP cmb)))"
    and s: "atRingLevel (ringQP cmb) ownShare" "atRingLevel (ringQP cmb) skOut"
  shows "GenAdditiveShareQP cmb activesPoints ownPoint ownShare skOut
         = Return None
            (let prods = map (\<lambda>i. montgomeryProduct (chainQP (ringQP cmb) ! i) (one cmb ! i)
                        (map (\<lambda>a. lookupCoeff (lagrangeCoeffs cmb) a ! i)
                           (filter (\<lambda>a. a \<noteq> ownPoint) (take (nat (threshold cmb)) activesPoints))))
                   [0..<length (chainQP (ringQP cmb))]
             in \<lparr>Q = mulLimbs (ModuliChain (RingQ (ringQP cmb))) (Q ownShare) prods,
                 P = (case RingP (ringQP cmb) of None \<Rightarrow> P skOut
                      | Some rp \<Rightarrow> mulLimbs (ModuliChain rp) (P ownShare)
                                    (drop (length (ModuliChain (RingQ (ringQP cmb)))) prods))\<rparr>)"
proof -
  have cp: "copy_slice (tmp2 cmb) (one cmb) = one cmb"
    using l by (simp add: copy_slice_def)
  show ?thesis
    using t l s
    by (simp add: GenAdditiveShareQP_def cp prodLoopQP_closed [OF l(2) c]
        ringqp_MulRNSScalarMontgomery_closed Let_def)
qed

lemma GenAdditiveShareQ_closed:
  assumes t: "0 \<le> threshold cmb" "threshold cmb \<le> int (length activesPoints)"
    and l: "length (tmp2 cmb) = length (one cmb)"
           "length (ModuliChain (ringQ cmb)) \<le> length (one cmb)"
    and c: "\<forall>a \<in> set (take (nat (threshold cmb)) activesPoints). a \<noteq> ownPoint \<longrightarrow>
           (\<exists>c. lagrangeCoeffs cmb a = Some c \<and> length (ModuliChain (ringQ cmb)) \<le> length c)"
    and s: "length ownShare = length (ModuliChain (ringQ cmb))"
           "length skOut = length (ModuliChain (ringQ cmb))"
  shows "GenAdditiveShareQ cmb activesPoints ownPoint ownShare skOut
         = Return None
            (mulLimbs (ModuliChain (ringQ cmb)) ownShare
              (map (\<lambda>i. montgomeryProduct (ModuliChain (ringQ cmb) ! i) (one cmb ! i)
                        (map (\<lambda>a. lookupCoeff (lagrangeCoeffs cmb) a ! i)
                           (filter (\<lambda>a. a \<noteq> ownPoint) (take (nat (threshold cmb)) activesPoints))))
                   [0..<length (ModuliChain (ringQ cmb))]))"
proof -
  have cp: "copy_slice (tmp2 cmb) (one cmb) = one cmb"
    using l by (simp add: copy_slice_def)
  show ?thesis
    using t l s
    by (simp add: GenAdditiveShareQ_def cp prodLoopQ_closed [OF l(2) c]
        ring_MulRNSScalarMontgomery_def Let_def mulLimbs_def nth_append cong: map_cong)
qed


lemma mulLimbs_cong:
  "(\<And>i. i < length qs \<Longrightarrow> s ! i = s' ! i) \<Longrightarrow> mulLimbs qs p s = mulLimbs qs p s'"
  by (simp add: mulLimbs_def)

lemma chainQP_nth_Q: "i < length (ModuliChain (RingQ r)) \<Longrightarrow> chainQP r ! i = ModuliChain (RingQ r) ! i"
  by (simp add: chainQP_def nth_append)

lemma length_chainQP_ge: "length (ModuliChain (RingQ r)) \<le> length (chainQP r)"
  by (simp add: chainQP_def)

lemma NewCombiner_fields:
  assumes "NewCombiner params own others thresh = Some cmb"
  shows "ringQ cmb = RingQ params" "ringQP cmb = params" "threshold cmb = thresh"
    "length (tmp2 cmb) = length (chainQP params)" "length (one cmb) = length (chainQP params)"
    "one cmb = map MontgomeryOne (chainQP params)"
    "lagrangeCoeffs cmb = (\<lambda>k. if k \<in> set others \<and> k \<noteq> own
              then Some (map (\<lambda>q. lagrangeLimb q own k) (chainQP params)) else None)"
  using assms unfolding NewCombiner_closed by auto

lemma NewCombiner_total: "\<exists>cmb. NewCombiner params own others thresh = Some cmb"
  by (simp add: NewCombiner_closed)

lemma GenAdditiveShare_NewCombiner:
  assumes nc: "NewCombiner params own others thresh = Some cmb"
    and "0 \<le> thresh" "thresh \<le> int (length activesPoints)"
    and "\<forall>a \<in> set (take (nat thresh) activesPoints). a \<noteq> ownPoint \<longrightarrow> a \<in> set others \<and> a \<noteq> own"
  shows "atRingLevel params ownShare \<Longrightarrow> atRingLevel params skOut \<Longrightarrow>
         GenAdditiveShareQP cmb activesPoints ownPoint ownShare skOut
                  = Return None
                     \<lparr>Q = mulLimbs (ModuliChain (RingQ params)) (Q ownShare)
                            (lagrangeProducts (chainQP params) (lagrangeCoeffs cmb)
                               (filter (\<lambda>a. a \<noteq> ownPoint) (take (nat thresh) activesPoints))),
                      P = (case RingP params of
                             None \<Rightarrow> P skOut
                           | Some rp \<Rightarrow> mulLimbs (ModuliChain rp) (P ownShare)
                                          (drop (length (ModuliChain (RingQ params)))
                                            (lagrangeProducts (chainQP params) (lagrangeCoeffs cmb)
                                               (filter (\<lambda>a. a \<noteq> ownPoint) (take (nat thresh) activesPoints)))))\<rparr>"
    and "length ownShareQ = length (ModuliChain (RingQ params)) \<Longrightarrow>
         length skOutQ = length (ModuliChain (RingQ params)) \<Longrightarrow>
         GenAdditiveShareQ cmb activesPoints ownPoint ownShareQ skOutQ
                  = Return None (mulLimbs (ModuliChain (RingQ params)) ownShareQ
                      (lagrangeProducts (chainQP params) (lagrangeCoeffs cmb)
                         (filter (\<lambda>a. a \<noteq> ownPoint) (take (nat thresh) activesPoints))))"
proof -
  note f = NewCombiner_fields [OF nc]
  have c: "\<forall>a \<in> set (take (nat (threshold cmb)) activesPoints). a \<noteq> ownPoint \<longrightarrow>
           (\<exists>c. lagrangeCoeffs cmb a = Some c \<and> length c = length (chainQP (ringQP cmb)))"
    using assms(4) by (auto simp: f)
  have cq: "\<forall>a \<in> set (take (nat (threshold cmb)) activesPoints). a \<noteq> ownPoint \<longrightarrow>
           (\<exists>c. lagrangeCoeffs cmb a = Some c \<and> length (ModuliChain (ringQ cmb)) \<le> length c)"
    using assms(4) length_chainQP_ge [of params] by (auto simp: f)
  let ?ids = "filter (\<lambda>a. a \<noteq> ownPoint) (take (nat thresh) activesPoints)"
  have prods: "map (\<lambda>i. montgomeryProduct (chainQP params ! i) (one cmb ! i)
                        (map (\<lambda>a. lookupCoeff (lagrangeCoeffs cmb) a ! i) ?ids))
                   [0..<length (chainQP params)]
               = lagrangeProducts (chainQP params) (lagrangeCoeffs cmb) ?ids"
    by (simp add: lagrangeProducts_def f(6))
  show "GenAdditiveShareQP cmb activesPoints ownPoint ownShare skOut
                  = Return None
                     \<lparr>Q = mulLimbs (ModuliChain (RingQ params)) (Q ownShare)
                            (lagrangeProducts (chainQP params) (lagrangeCoeffs cmb) ?ids),
                      P = (case RingP params of
                             None \<Rightarrow> P skOut
                           | Some rp \<Rightarrow> mulLimbs (ModuliChain rp) (P ownShare)
                                          (drop (length (ModuliChain (RingQ params)))
                                            (lagrangeProducts (chainQP params) (lagrangeCoeffs cmb) ?ids)))\<rparr>"
    if "atRingLevel params ownShare" "atRingLevel params skOut"
    using GenAdditiveShareQP_closed [of cmb activesPoints ownPoint ownShare skOut] assms(2,3) c that
    by (simp add: f(2-5) prods Let_def cong: option.case_cong)
  show "GenAdditiveShareQ cmb activesPoints ownPoint ownShareQ skOutQ
                  = Return None (mulLimbs (ModuliChain (RingQ params)) ownShareQ
                      (lagrangeProducts (chainQP params) (lagrangeCoeffs cmb) ?ids))"
    if "length ownShareQ = length (ModuliChain (RingQ params))"
       "length skOutQ = length (ModuliChain (RingQ params))"
  proof -
    have "GenAdditiveShareQ cmb activesPoints ownPoint ownShareQ skOutQ
         = Return None
            (mulLimbs (ModuliChain (ringQ cmb)) ownShareQ
              (map (\<lambda>i. montgomeryProduct (ModuliChain (ringQ cmb) ! i) (one cmb ! i)
                        (map (\<lambda>a. lookupCoeff (lagrangeCoeffs cmb) a ! i)
                           (filter (\<lambda>a. a \<noteq> ownPoint) (take (nat (threshold cmb)) activesPoints))))
                   [0..<length (ModuliChain (ringQ cmb))]))"
      using assms(2,3) that cq length_chainQP_ge [of params]
      by (intro GenAdditiveShareQ_closed) (simp_all add: f(1-5))
    moreover have "mulLimbs (ModuliChain (RingQ params)) ownShareQ
              (map (\<lambda>i. montgomeryProduct (ModuliChain (RingQ params) ! i) (one cmb ! i)
                        (map (\<lambda>a. lookupCoeff (lagrangeCoeffs cmb) a ! i) ?ids))
                   [0..<length (ModuliChain (RingQ params))])
            = mulLimbs (ModuliChain (RingQ params)) ownShareQ
                (lagrangeProducts (chainQP params) (lagrangeCoeffs cmb) ?ids)"
      using length_chainQP_ge [of params]
      by (intro mulLimbs_cong) (simp add: lagrangeProducts_def f(6) chainQP_nth_Q)
    ultimately show ?thesis by (simp add: f(1-3))
  qed
qed

lemma GenAdditiveShare_prefix:
  assumes "int (length actives') \<ge> threshold cmb" "int (length actives) \<ge> threshold cmb"
    "take (nat (threshold cmb)) actives' = take (nat (threshold cmb)) actives"
  shows "GenAdditiveShareQP cmb actives' ownPoint ownShare skOut
           = GenAdditiveShareQP cmb actives ownPoint ownShare skOut"
        "GenAdditiveShareQ cmb actives' ownPoint ownShareQ skOutQ
           = GenAdditiveShareQ cmb actives ownPoint ownShareQ skOutQ"
  using assms by (simp_all add: GenAdditiveShareQP_def GenAdditiveShareQ_def)

text \<open>
  Claim C7, amended. For a combiner built by \<open>NewCombiner\<close> with a threshold that is not
  negative, at least \<open>threshold\<close> active identities, a precomputed coefficient for every
  identity among the first \<open>threshold\<close> entries other than the own one, and an own share
  and an output that have the limbs of the ring, \<open>GenAdditiveShareQ\<close> and
  \<open>GenAdditiveShareQP\<close> use the first \<open>threshold\<close> entries of \<open>activesPoints\<close> in the
  given order: in every limb the Montgomery one is multiplied by the stored coefficient
  of each identity of that prefix other than the own one, and the own share is
  multiplied by the product (Montgomery multiplication). Identities behind the prefix
  do not influence the result.
\<close>

theorem GenAdditiveShare_algorithm:
  assumes "0 \<le> thresh" "thresh \<le> int (length activesPoints)"
    and "\<forall>a \<in> set (take (nat thresh) activesPoints). a \<noteq> ownPoint \<longrightarrow> a \<in> set others \<and> a \<noteq> own"
    and "atRingLevel params ownShare" "atRingLevel params skOut"
    and "length ownShareQ = length (ModuliChain (RingQ params))"
        "length skOutQ = length (ModuliChain (RingQ params))"
  shows "case NewCombiner params own others thresh of
           None \<Rightarrow> False
         | Some cmb \<Rightarrow>
            (let prefix = take (nat thresh) activesPoints;
                 prods = lagrangeProducts (chainQP params) (lagrangeCoeffs cmb)
                           (filter (\<lambda>a. a \<noteq> ownPoint) prefix)
             in GenAdditiveShareQP cmb activesPoints ownPoint ownShare skOut
                  = Return None
                     \<lparr>Q = mulLimbs (ModuliChain (RingQ params)) (Q ownShare) prods,
                      P = (case RingP params of
                             None \<Rightarrow> P skOut
                           | Some rp \<Rightarrow> mulLimbs (ModuliChain rp) (P ownShare)
                                          (drop (length (ModuliChain (RingQ params))) prods))\<rparr>
                \<and> GenAdditiveShareQ cmb activesPoints ownPoint ownShareQ skOutQ
                  = Return None (mulLimbs (ModuliChain (RingQ params)) ownShareQ prods)
                \<and> (\<forall>actives'. thresh \<le> int (length actives') \<and> take (nat thresh) actives' = prefix
                     \<longrightarrow> GenAdditiveShareQP cmb actives' ownPoint ownShare skOut
                           = GenAdditiveShareQP cmb activesPoints ownPoint ownShare skOut
                         \<and> GenAdditiveShareQ cmb actives' ownPoint ownShareQ skOutQ
                           = GenAdditiveShareQ cmb activesPoints ownPoint ownShareQ skOutQ))"
proof -
  obtain cmb where nc: "NewCombiner params own others thresh = Some cmb"
    using NewCombiner_total by blast
  have t: "threshold cmb = thresh" by (rule NewCombiner_fields(3) [OF nc])
  note qp = GenAdditiveShare_NewCombiner(1) [OF nc assms(1-3) assms(4,5)]
  note q = GenAdditiveShare_NewCombiner(2) [OF nc assms(1-3) assms(6,7)]
  have ind: "GenAdditiveShareQP cmb actives' ownPoint ownShare skOut
                = GenAdditiveShareQP cmb activesPoints ownPoint ownShare skOut
             \<and> GenAdditiveShareQ cmb actives' ownPoint ownShareQ skOutQ
                = GenAdditiveShareQ cmb activesPoints ownPoint ownShareQ skOutQ"
    if "thresh \<le> int (length actives') \<and> take (nat thresh) actives' = take (nat thresh) activesPoints"
    for actives'
    using that assms(2) GenAdditiveShare_prefix [where cmb = cmb and actives = activesPoints and actives' = actives']
    unfolding t by blast
  show ?thesis
    unfolding nc option.case Let_def
    using qp q ind by blast
qed



lemma RInv_ex: "RInv 7 = 4" "RInv 13 = 9" "RInv 11 = 9"
  by (simp_all add: RInv_def)

lemma MontgomeryOne_ex: "MontgomeryOne 7 = 2" "MontgomeryOne 13 = 3" "MontgomeryOne 11 = 5"
  by (simp_all add: MontgomeryOne_def MForm_def)

lemma lagrangeLimb_ex:
  "lagrangeLimb 7 1 2 = 4" "lagrangeLimb 13 1 2 = 6" "lagrangeLimb 11 1 2 = 10"
  "lagrangeLimb 7 1 3 = 3" "lagrangeLimb 13 1 3 = 11" "lagrangeLimb 11 1 3 = 2"
  unfolding lagrangeLimb_def Let_def
  by (simp_all add: MForm_def MRed_def RInv_ex ModexpMontgomery_numeral)


lemma chainQP_exParams: "chainQP exParams = [7, 13, 11]"
  by (simp add: chainQP_def exParams_def)

lemma MRed_ex:
  "MRed a b 7 = (a * b * 4) mod 7" "MRed a b 13 = (a * b * 9) mod 13" "MRed a b 11 = (a * b * 9) mod 11"
  by (simp_all add: MRed_def RInv_ex)

theorem GenAdditiveShare_algorithm_witness:
  "(0::int) \<le> 2 \<and> 2 \<le> int (length [1, 2, 3 :: 64 word])
   \<and> set (filter (\<lambda>a. a \<noteq> 1) (take (nat 2) [1, 2, 3 :: 64 word])) \<subseteq> set [1, 2, 3] - {1}
   \<and> atRingLevel exParams \<lparr>Q = [[3, 2], [5, 4]], P = [[5, 6]]\<rparr>
   \<and> atRingLevel exParams \<lparr>Q = [[0, 0], [0, 0]], P = [[0, 0]]\<rparr>
   \<and> (case NewCombiner exParams 1 [1, 2, 3] 2 of
         None \<Rightarrow> False
       | Some cmb \<Rightarrow>
           GenAdditiveShareQP cmb [1, 2, 3] 1 \<lparr>Q = [[3, 2], [5, 4]], P = [[5, 6]]\<rparr>
               \<lparr>Q = [[0, 0], [0, 0]], P = [[0, 0]]\<rparr>
             = Return None \<lparr>Q = [[6, 4], [10, 8]], P = [[10, 1]]\<rparr>
           \<and> GenAdditiveShareQ cmb [1, 2, 3] 1 [[3, 2], [5, 4]] [[0, 0], [0, 0]]
             = Return None [[6, 4], [10, 8]]
           \<and> GenAdditiveShareQP cmb [1, 2, 4] 1 \<lparr>Q = [[3, 2], [5, 4]], P = [[5, 6]]\<rparr>
               \<lparr>Q = [[0, 0], [0, 0]], P = [[0, 0]]\<rparr>
             = GenAdditiveShareQP cmb [1, 2, 3] 1 \<lparr>Q = [[3, 2], [5, 4]], P = [[5, 6]]\<rparr>
               \<lparr>Q = [[0, 0], [0, 0]], P = [[0, 0]]\<rparr>)"
proof -
  have h1: "(0::int) \<le> 2" and h2: "2 \<le> int (length [1, 2, 3 :: 64 word])" by simp_all
  have h3: "\<forall>a \<in> set (take (nat 2) [1, 2, 3 :: 64 word]). a \<noteq> 1 \<longrightarrow> a \<in> set [1, 2, 3] \<and> a \<noteq> 1"
    by simp
  have h4: "atRingLevel exParams \<lparr>Q = [[3, 2], [5, 4]], P = [[5, 6]]\<rparr>"
    and h5: "atRingLevel exParams \<lparr>Q = [[0, 0], [0, 0]], P = [[0, 0]]\<rparr>"
    by (simp_all add: atRingLevel_def exParams_def)
  have h6: "length [[3, 2], [5, 4 :: nat]] = length (ModuliChain (RingQ exParams))"
    and h7: "length [[0, 0], [0, 0 :: nat]] = length (ModuliChain (RingQ exParams))"
    by (simp_all add: exParams_def)
  obtain cmb where nc: "NewCombiner exParams 1 [1, 2, 3] 2 = Some cmb"
    using NewCombiner_total by blast
  have take2: "take (nat 2) [1, 2, 3 :: 64 word] = [1, 2]" "take (nat 2) [1, 2, 4 :: 64 word] = [1, 2]"
    by (simp_all add: numeral_2_eq_2)
  have prods: "lagrangeProducts (chainQP exParams) (lagrangeCoeffs cmb) [2] = [4, 6, 10]"
    by (simp add: NewCombiner_fields(7) [OF nc] lagrangeProducts_def chainQP_exParams upt_small
        montgomeryProduct_def lookupCoeff_def MontgomeryOne_ex lagrangeLimb_ex MRed_ex)
  have q: "mulLimbs (ModuliChain (RingQ exParams)) [[3, 2], [5, 4]] [4, 6, 10] = [[6, 4], [10, 8]]"
    and p: "mulLimbs [11] [[5, 6]] (drop (length (ModuliChain (RingQ exParams))) [4, 6, 10]) = [[10, 1]]"
    by (simp_all add: mulLimbs_def exParams_def upt_small MRed_ex)
  have rp: "RingP exParams = Some \<lparr>ModuliChain = [11], RingDegree = 2\<rparr>"
    by (simp add: exParams_def)
  have h3': "set (filter (\<lambda>a. a \<noteq> 1) (take (nat 2) [1, 2, 3 :: 64 word])) \<subseteq> set [1, 2, 3] - {1}"
    by (simp add: take2)
  show ?thesis
    using GenAdditiveShare_algorithm [OF h1 h2 h3 h4 h5 h6 h7] h1 h2 h3' h4 h5
    unfolding nc option.case Let_def take2
    by (simp add: prods q p rp)
qed

lemma GenAdditiveShare_Fault:
  assumes "0 \<le> threshold cmb" "threshold cmb \<le> int (length activesPoints)"
    and "\<exists>a \<in> set (take (nat (threshold cmb)) activesPoints). a \<noteq> ownPoint \<and> lagrangeCoeffs cmb a = None"
  shows "chainQP (ringQP cmb) \<noteq> [] \<Longrightarrow> GenAdditiveShareQP cmb activesPoints ownPoint ownShare skOut = Fault"
    and "ModuliChain (ringQ cmb) \<noteq> [] \<Longrightarrow> GenAdditiveShareQ cmb activesPoints ownPoint ownShareQ skOutQ = Fault"
  using assms
  by (simp_all add: GenAdditiveShareQP_def GenAdditiveShareQ_def prodLoopQP_missing prodLoopQ_missing)

lemma GenAdditiveShare_short_share:
  assumes nc: "NewCombiner params own others thresh = Some cmb"
    and t: "0 \<le> thresh" "thresh \<le> int (length activesPoints)"
    and c: "\<forall>a \<in> set (take (nat thresh) activesPoints). a \<noteq> ownPoint \<longrightarrow> a \<in> set others \<and> a \<noteq> own"
  shows "length (Q ownShare) < length (ModuliChain (RingQ params))
         \<Longrightarrow> GenAdditiveShareQP cmb activesPoints ownPoint ownShare skOut = Fault"
    and "length ownShareQ < length (ModuliChain (RingQ params))
         \<Longrightarrow> GenAdditiveShareQ cmb activesPoints ownPoint ownShareQ skOutQ = Fault"
proof -
  note f = NewCombiner_fields [OF nc]
  have cp: "copy_slice (tmp2 cmb) (one cmb) = one cmb"
    using f(4,5) by (simp add: copy_slice_def)
  have c1: "\<forall>a \<in> set (take (nat thresh) activesPoints). a \<noteq> ownPoint \<longrightarrow>
           (\<exists>c. lagrangeCoeffs cmb a = Some c \<and> length c = length (chainQP (ringQP cmb)))"
    using c by (simp add: f)
  have c2: "\<forall>a \<in> set (take (nat thresh) activesPoints). a \<noteq> ownPoint \<longrightarrow>
           (\<exists>c. lagrangeCoeffs cmb a = Some c \<and> length (ModuliChain (ringQ cmb)) \<le> length c)"
    using c by (simp add: f chainQP_def)
  have l1: "length (one cmb) = length (chainQP (ringQP cmb))" by (simp add: f)
  have l2: "length (ModuliChain (ringQ cmb)) \<le> length (one cmb)" by (simp add: f(1,5) chainQP_def)
  show "GenAdditiveShareQP cmb activesPoints ownPoint ownShare skOut = Fault"
    if "length (Q ownShare) < length (ModuliChain (RingQ params))"
    using that t
    by (simp add: GenAdditiveShareQP_def cp prodLoopQP_closed [OF l1 c1] f(2,3)
        ringqp_MulRNSScalarMontgomery_def ring_MulRNSScalarMontgomery_def Let_def
        ModuliChainLength_def chainQP_def)
  show "GenAdditiveShareQ cmb activesPoints ownPoint ownShareQ skOutQ = Fault"
    if "length ownShareQ < length (ModuliChain (RingQ params))"
    using that t
    by (simp add: GenAdditiveShareQ_def cp prodLoopQ_closed [OF l2 c2] f(1,3)
        ring_MulRNSScalarMontgomery_def Let_def)
qed

text \<open>
  Claim C7, as stated, fails. With at least \<open>threshold\<close> active identities the call does
  not return when the own share has fewer limbs than the ring, when an identity of the
  prefix has no precomputed coefficient (5 was not among \<open>others\<close>), or when the
  threshold is negative (the slice bound).
\<close>

theorem GenAdditiveShare_algorithm_counterexample:
  "2 \<le> int (length [1, 2, 3 :: 64 word])
   \<and> (case NewCombiner exParams 1 [1, 2, 3] 2 of
         None \<Rightarrow> False
       | Some cmb \<Rightarrow>
           GenAdditiveShareQP cmb [1, 2, 3] 1 \<lparr>Q = [[3, 2]], P = [[5, 6]]\<rparr>
               \<lparr>Q = [[0, 0], [0, 0]], P = [[0, 0]]\<rparr> = Fault
           \<and> GenAdditiveShareQ cmb [1, 2, 3] 1 [[3, 2]] [[0, 0], [0, 0]] = Fault
           \<and> GenAdditiveShareQP cmb [1, 5, 3] 1 \<lparr>Q = [[3, 2], [5, 4]], P = [[5, 6]]\<rparr>
               \<lparr>Q = [[0, 0], [0, 0]], P = [[0, 0]]\<rparr> = Fault
           \<and> GenAdditiveShareQ cmb [1, 5, 3] 1 [[3, 2], [5, 4]] [[0, 0], [0, 0]] = Fault)
   \<and> - 1 \<le> int (length ([] :: 64 word list))
   \<and> (case NewCombiner exParams 1 [1, 2, 3] (- 1) of
         None \<Rightarrow> False
       | Some cmb \<Rightarrow>
           GenAdditiveShareQP cmb [] 1 \<lparr>Q = [[3, 2], [5, 4]], P = [[5, 6]]\<rparr>
               \<lparr>Q = [[0, 0], [0, 0]], P = [[0, 0]]\<rparr> = Fault
           \<and> GenAdditiveShareQ cmb [] 1 [[3, 2], [5, 4]] [[0, 0], [0, 0]] = Fault)"
proof -
  obtain cmb where nc: "NewCombiner exParams 1 [1, 2, 3] 2 = Some cmb"
    using NewCombiner_total by blast
  obtain cmb' where nc': "NewCombiner exParams 1 [1, 2, 3] (- 1) = Some cmb'"
    using NewCombiner_total by blast
  note f = NewCombiner_fields [OF nc]
  have t: "(0 :: int) \<le> 2" "2 \<le> int (length [1, 2, 3 :: 64 word])"
    "2 \<le> int (length [1, 5, 3 :: 64 word])" by simp_all
  have take2: "take (nat 2) [1, 2, 3 :: 64 word] = [1, 2]" "take (nat 2) [1, 5, 3 :: 64 word] = [1, 5]"
    by (simp_all add: numeral_2_eq_2)
  have c: "\<forall>a \<in> set (take (nat 2) [1, 2, 3 :: 64 word]). a \<noteq> 1 \<longrightarrow> a \<in> set [1, 2, 3] \<and> a \<noteq> 1"
    by (simp add: take2)
  have s: "length (Q \<lparr>Q = [[3, 2]], P = [[5, 6 :: nat]]\<rparr>) < length (ModuliChain (RingQ exParams))"
    "length [[3, 2 :: nat]] < length (ModuliChain (RingQ exParams))"
    by (simp_all add: exParams_def)
  have a: "GenAdditiveShareQP cmb [1, 2, 3] 1 \<lparr>Q = [[3, 2]], P = [[5, 6]]\<rparr>
               \<lparr>Q = [[0, 0], [0, 0]], P = [[0, 0]]\<rparr> = Fault"
    "GenAdditiveShareQ cmb [1, 2, 3] 1 [[3, 2]] [[0, 0], [0, 0]] = Fault"
    by (rule GenAdditiveShare_short_share [OF nc t(1,2) c] s)+
  have m: "\<exists>a \<in> set (take (nat (threshold cmb)) [1, 5, 3 :: 64 word]). a \<noteq> 1 \<and> lagrangeCoeffs cmb a = None"
    by (simp add: f take2)
  have ne: "chainQP (ringQP cmb) \<noteq> []" "ModuliChain (ringQ cmb) \<noteq> []"
    by (simp_all add: f chainQP_exParams) (simp add: exParams_def)
  have b: "GenAdditiveShareQP cmb [1, 5, 3] 1 \<lparr>Q = [[3, 2], [5, 4]], P = [[5, 6]]\<rparr>
               \<lparr>Q = [[0, 0], [0, 0]], P = [[0, 0]]\<rparr> = Fault"
    "GenAdditiveShareQ cmb [1, 5, 3] 1 [[3, 2], [5, 4]] [[0, 0], [0, 0]] = Fault"
    using GenAdditiveShare_Fault [where cmb = cmb and activesPoints = "[1, 5, 3]" and ownPoint = 1, OF _ _ m] ne t
    by (simp_all add: f(3))
  have n: "GenAdditiveShareQP cmb' [] 1 \<lparr>Q = [[3, 2], [5, 4]], P = [[5, 6]]\<rparr>
               \<lparr>Q = [[0, 0], [0, 0]], P = [[0, 0]]\<rparr> = Fault"
    "GenAdditiveShareQ cmb' [] 1 [[3, 2], [5, 4]] [[0, 0], [0, 0]] = Fault"
    by (simp_all add: GenAdditiveShareQP_def GenAdditiveShareQ_def NewCombiner_fields(3) [OF nc'])
  show ?thesis
    unfolding nc nc' option.case using a b n by simp
qed

subsection \<open>Combination: identities without a coefficient\<close>

text \<open>
  Claim C10. With enough active identities, \<open>GenAdditiveShareQ\<close> and \<open>GenAdditiveShareQP\<close>
  return only when every identity among the first \<open>threshold\<close> entries that differs
  from the own identity was in the list \<open>others\<close> given to \<open>NewCombiner\<close>. For an
  identity that was not, the map lookup gives the empty scalar, the limb-wise
  multiplication indexes it and the call does not return: no error value comes back.
\<close>

theorem GenAdditiveShare_missing_coefficient:
  assumes "0 \<le> thresh" "thresh \<le> int (length activesPoints)"
    and "ModuliChain (RingQ params) \<noteq> []"
    and "atRingLevel params ownShare" "atRingLevel params skOut"
    and "length ownShareQ = length (ModuliChain (RingQ params))"
        "length skOutQ = length (ModuliChain (RingQ params))"
  shows "case NewCombiner params own others thresh of
           None \<Rightarrow> False
         | Some cmb \<Rightarrow>
            (\<forall>a. a \<notin> set others \<longrightarrow> lookupCoeff (lagrangeCoeffs cmb) a = [])
            \<and> (if \<forall>a \<in> set (take (nat thresh) activesPoints). a \<noteq> own \<longrightarrow> a \<in> set others
               then (\<exists>sk. GenAdditiveShareQP cmb activesPoints own ownShare skOut = Return None sk)
                  \<and> (\<exists>sk. GenAdditiveShareQ cmb activesPoints own ownShareQ skOutQ = Return None sk)
               else GenAdditiveShareQP cmb activesPoints own ownShare skOut = Fault
                  \<and> GenAdditiveShareQ cmb activesPoints own ownShareQ skOutQ = Fault)"
proof -
  obtain cmb where nc: "NewCombiner params own others thresh = Some cmb"
    using NewCombiner_total by blast
  note f = NewCombiner_fields [OF nc]
  have absent: "\<forall>a. a \<notin> set others \<longrightarrow> lookupCoeff (lagrangeCoeffs cmb) a = []"
    by (simp add: f(7) lookupCoeff_def)
  have ne: "chainQP (ringQP cmb) \<noteq> []" "ModuliChain (ringQ cmb) \<noteq> []"
    using assms(3) by (simp_all add: f chainQP_def)
  show ?thesis
  proof (cases "\<forall>a \<in> set (take (nat thresh) activesPoints). a \<noteq> own \<longrightarrow> a \<in> set others")
    case True
    then have c: "\<forall>a \<in> set (take (nat thresh) activesPoints). a \<noteq> own \<longrightarrow> a \<in> set others \<and> a \<noteq> own"
      by blast
    show ?thesis
      unfolding nc option.case
      using True absent GenAdditiveShare_NewCombiner(1) [OF nc assms(1,2) c assms(4,5)]
        GenAdditiveShare_NewCombiner(2) [OF nc assms(1,2) c assms(6,7)]
      by simp
  next
    case False
    then have "\<exists>a \<in> set (take (nat (threshold cmb)) activesPoints). a \<noteq> own \<and> lagrangeCoeffs cmb a = None"
      by (auto simp: f)
    then show ?thesis
      unfolding nc option.case
      using False absent assms(1,2) ne
        GenAdditiveShare_Fault [of cmb activesPoints own]
      by (simp add: f(3))
  qed
qed

theorem GenAdditiveShare_missing_coefficient_witness:
  "(0::int) \<le> 2 \<and> 2 \<le> int (length [1, 2, 3 :: 64 word]) \<and> 2 \<le> int (length [1, 4, 3 :: 64 word])
   \<and> ModuliChain (RingQ exParams) \<noteq> []
   \<and> atRingLevel exParams \<lparr>Q = [[3, 2], [5, 4]], P = [[5, 6]]\<rparr>
   \<and> atRingLevel exParams \<lparr>Q = [[0, 0], [0, 0]], P = [[0, 0]]\<rparr>
   \<and> (case NewCombiner exParams 1 [1, 2, 3] 2 of
         None \<Rightarrow> False
       | Some cmb \<Rightarrow>
           lookupCoeff (lagrangeCoeffs cmb) 4 = []
           \<and> (\<exists>sk. GenAdditiveShareQP cmb [1, 2, 3] 1 \<lparr>Q = [[3, 2], [5, 4]], P = [[5, 6]]\<rparr>
               \<lparr>Q = [[0, 0], [0, 0]], P = [[0, 0]]\<rparr> = Return None sk)
           \<and> (\<exists>sk. GenAdditiveShareQ cmb [1, 2, 3] 1 [[3, 2], [5, 4]] [[0, 0], [0, 0]] = Return None sk)
           \<and> GenAdditiveShareQP cmb [1, 4, 3] 1 \<lparr>Q = [[3, 2], [5, 4]], P = [[5, 6]]\<rparr>
               \<lparr>Q = [[0, 0], [0, 0]], P = [[0, 0]]\<rparr> = Fault
           \<and> GenAdditiveShareQ cmb [1, 4, 3] 1 [[3, 2], [5, 4]] [[0, 0], [0, 0]] = Fault)"
proof -
  have h1: "(0::int) \<le> 2" and h2: "2 \<le> int (length [1, 2, 3 :: 64 word])"
    and h2': "2 \<le> int (length [1, 4, 3 :: 64 word])" by simp_all
  have h3: "ModuliChain (RingQ exParams) \<noteq> []" by (simp add: exParams_def)
  have h4: "atRingLevel exParams \<lparr>Q = [[3, 2], [5, 4]], P = [[5, 6]]\<rparr>"
    and h5: "atRingLevel exParams \<lparr>Q = [[0, 0], [0, 0]], P = [[0, 0]]\<rparr>"
    by (simp_all add: atRingLevel_def exParams_def)
  have h6: "length [[3, 2], [5, 4 :: nat]] = length (ModuliChain (RingQ exParams))"
    and h7: "length [[0, 0], [0, 0 :: nat]] = length (ModuliChain (RingQ exParams))"
    by (simp_all add: exParams_def)
  obtain cmb where nc: "NewCombiner exParams 1 [1, 2, 3] 2 = Some cmb"
    using NewCombiner_total by blast
  have take2: "take (nat 2) [1, 2, 3 :: 64 word] = [1, 2]" "take (nat 2) [1, 4, 3 :: 64 word] = [1, 4]"
    by (simp_all add: numeral_2_eq_2)
  show ?thesis
    using GenAdditiveShare_missing_coefficient [OF h1 h2 h3 h4 h5 h6 h7, where own = 1 and others = "[1, 2, 3]"]
      GenAdditiveShare_missing_coefficient [OF h1 h2' h3 h4 h5 h6 h7, where own = 1 and others = "[1, 2, 3]"]
      h1 h2 h2' h3 h4 h5
    unfolding nc option.case take2
    by simp
qed

subsection \<open>Shamir polynomial generation\<close>

lemma ring_Read_snd: "snd (ring_Read r g pol) = g\<lparr>pos := pos g + drawsQ r\<rparr>"
  by (simp add: ring_Read_def drawsQ_def Let_def)

lemma ringqp_Read_snd: "snd (ringqp_Read r g pol) = g\<lparr>pos := pos g + drawsQP r\<rparr>"
  by (simp add: ringqp_Read_def drawsQP_def ring_Read_def drawsQ_def Let_def split: option.split prod.split)

lemma ring_Read_wf: "wfPoly r (fst (ring_Read r g (ring_NewPoly r)))"
  by (simp add: ring_Read_def Let_def ring_NewPoly_def wfPoly_def list_all_iff)

lemma ringqp_Read_wf: "wfPolyQP r (fst (ringqp_Read r g (ringqp_NewPoly r)))"
  by (auto simp: ringqp_Read_def wfPolyQP_def ringqp_NewPoly_def
      split: option.split prod.split)
     (metis fst_conv ring_Read_wf)+

lemma sampleLoopQ_closed:
  "sampleLoopQ r k g
   = (map (\<lambda>j. fst (ring_Read r (g\<lparr>pos := pos g + j * drawsQ r\<rparr>) (ring_NewPoly r))) [0..<k],
      g\<lparr>pos := pos g + k * drawsQ r\<rparr>)"
proof (induction k arbitrary: g)
  case 0
  then show ?case by simp
next
  case (Suc k)
  have s: "ring_Read r g (ring_NewPoly r)
           = (fst (ring_Read r g (ring_NewPoly r)), g\<lparr>pos := pos g + drawsQ r\<rparr>)"
    using ring_Read_snd [of r g "ring_NewPoly r"] by (metis prod.collapse)
  have m: "map (\<lambda>j. fst (ring_Read r (g\<lparr>pos := pos g + j * drawsQ r\<rparr>) (ring_NewPoly r))) [0..<Suc k]
        = fst (ring_Read r g (ring_NewPoly r))
          # map (\<lambda>j. fst (ring_Read r (g\<lparr>pos := pos g + drawsQ r + j * drawsQ r\<rparr>) (ring_NewPoly r))) [0..<k]"
    by (subst upt_conv_Cons, simp, subst map_Suc_upt [symmetric]) (simp add: add.assoc)
  show ?case
    by (subst sampleLoopQ.simps, subst s, subst m) (simp add: Suc add.assoc)
qed

lemma sampleLoopQP_closed:
  "sampleLoopQP r k g
   = (map (\<lambda>j. fst (ringqp_Read r (g\<lparr>pos := pos g + j * drawsQP r\<rparr>) (ringqp_NewPoly r))) [0..<k],
      g\<lparr>pos := pos g + k * drawsQP r\<rparr>)"
proof (induction k arbitrary: g)
  case 0
  then show ?case by simp
next
  case (Suc k)
  have s: "ringqp_Read r g (ringqp_NewPoly r)
           = (fst (ringqp_Read r g (ringqp_NewPoly r)), g\<lparr>pos := pos g + drawsQP r\<rparr>)"
    using ringqp_Read_snd [of r g "ringqp_NewPoly r"] by (metis prod.collapse)
  have m: "map (\<lambda>j. fst (ringqp_Read r (g\<lparr>pos := pos g + j * drawsQP r\<rparr>) (ringqp_NewPoly r))) [0..<Suc k]
        = fst (ringqp_Read r g (ringqp_NewPoly r))
          # map (\<lambda>j. fst (ringqp_Read r (g\<lparr>pos := pos g + drawsQP r + j * drawsQP r\<rparr>) (ringqp_NewPoly r))) [0..<k]"
    by (subst upt_conv_Cons, simp, subst map_Suc_upt [symmetric]) (simp add: add.assoc)
  show ?case
    by (subst sampleLoopQP.simps, subst s, subst m) (simp add: Suc add.assoc)
qed


lemma GenShamirPolynomialQ_closed:
  "1 \<le> thresh \<Longrightarrow>
   GenShamirPolynomialQ thr thresh secretQ
   = ((secretQ # map (\<lambda>j. fst (ring_Read (ringQ thr)
                         ((prng thr)\<lparr>pos := pos (prng thr) + j * drawsQ (ringQ thr)\<rparr>)
                         (ring_NewPoly (ringQ thr))))
                  [0..<nat (thresh - 1)], None),
      thr\<lparr>prng := (prng thr)\<lparr>pos := pos (prng thr) + nat (thresh - 1) * drawsQ (ringQ thr)\<rparr>\<rparr>)"
  by (simp add: GenShamirPolynomialQ_def sampleLoopQ_closed)

lemma GenShamirPolynomialQP_closed:
  "1 \<le> thresh \<Longrightarrow>
   GenShamirPolynomialQP thr thresh secret
   = ((secret # map (\<lambda>j. fst (ringqp_Read (ringQP thr)
                         ((prng thr)\<lparr>pos := pos (prng thr) + j * drawsQP (ringQP thr)\<rparr>)
                         (ringqp_NewPoly (ringQP thr))))
                  [0..<nat (thresh - 1)], None),
      thr\<lparr>prng := (prng thr)\<lparr>pos := pos (prng thr) + nat (thresh - 1) * drawsQP (ringQP thr)\<rparr>\<rparr>)"
  by (simp add: GenShamirPolynomialQP_def sampleLoopQP_closed)

text \<open>
  Claim C5, amended. \<open>GenShamirPolynomialQ\<close> and \<open>GenShamirPolynomialQP\<close> return the
  invalid-threshold error exactly when \<open>threshold < 1\<close>; then the generator has not
  moved and the polynomial returned is empty. With \<open>threshold \<ge> 1\<close> they return no
  error and \<open>threshold\<close> coefficients: the first is the secret, each of the others is
  one read of the uniform sampler into a new polynomial of the ring of the
  \<open>Thresholdizer\<close>, on its own stretch of draws. These coefficients have the level and
  degree of that ring, whatever the level of the secret.
\<close>

theorem GenShamirPolynomial_spec:
  "(thresh < 1 \<longrightarrow>
      GenShamirPolynomialQ thr thresh secretQ = (([], Some InvalidThreshold), thr)
      \<and> GenShamirPolynomialQP thr thresh secret = (([], Some InvalidThreshold), thr))
   \<and> (1 \<le> thresh \<longrightarrow>
      GenShamirPolynomialQ thr thresh secretQ
        = ((secretQ # map (\<lambda>j. fst (ring_Read (ringQ thr)
                         ((prng thr)\<lparr>pos := pos (prng thr) + j * drawsQ (ringQ thr)\<rparr>)
                         (ring_NewPoly (ringQ thr))))
                  [0..<nat (thresh - 1)], None),
           thr\<lparr>prng := (prng thr)\<lparr>pos := pos (prng thr) + nat (thresh - 1) * drawsQ (ringQ thr)\<rparr>\<rparr>)
      \<and> GenShamirPolynomialQP thr thresh secret
        = ((secret # map (\<lambda>j. fst (ringqp_Read (ringQP thr)
                         ((prng thr)\<lparr>pos := pos (prng thr) + j * drawsQP (ringQP thr)\<rparr>)
                         (ringqp_NewPoly (ringQP thr))))
                  [0..<nat (thresh - 1)], None),
           thr\<lparr>prng := (prng thr)\<lparr>pos := pos (prng thr) + nat (thresh - 1) * drawsQP (ringQP thr)\<rparr>\<rparr>)
      \<and> int (length (fst (fst (GenShamirPolynomialQ thr thresh secretQ)))) = thresh
      \<and> int (length (fst (fst (GenShamirPolynomialQP thr thresh secret)))) = thresh
      \<and> list_all (wfPoly (ringQ thr)) (tl (fst (fst (GenShamirPolynomialQ thr thresh secretQ))))
      \<and> list_all (wfPolyQP (ringQP thr)) (tl (fst (fst (GenShamirPolynomialQP thr thresh secret)))))"
proof (intro conjI impI)
  assume "thresh < 1"
  then show "GenShamirPolynomialQ thr thresh secretQ = (([], Some InvalidThreshold), thr)"
    "GenShamirPolynomialQP thr thresh secret = (([], Some InvalidThreshold), thr)"
    by (simp_all add: GenShamirPolynomialQ_def GenShamirPolynomialQP_def)
next
  assume t: "1 \<le> thresh"
  note q = GenShamirPolynomialQ_closed [OF t, of thr secretQ]
  note qp = GenShamirPolynomialQP_closed [OF t, of thr secret]
  show "GenShamirPolynomialQ thr thresh secretQ
        = ((secretQ # map (\<lambda>j. fst (ring_Read (ringQ thr)
                         ((prng thr)\<lparr>pos := pos (prng thr) + j * drawsQ (ringQ thr)\<rparr>)
                         (ring_NewPoly (ringQ thr))))
                  [0..<nat (thresh - 1)], None),
           thr\<lparr>prng := (prng thr)\<lparr>pos := pos (prng thr) + nat (thresh - 1) * drawsQ (ringQ thr)\<rparr>\<rparr>)"
    by (rule q)
  show "GenShamirPolynomialQP thr thresh secret
        = ((secret # map (\<lambda>j. fst (ringqp_Read (ringQP thr)
                         ((prng thr)\<lparr>pos := pos (prng thr) + j * drawsQP (ringQP thr)\<rparr>)
                         (ringqp_NewPoly (ringQP thr))))
                  [0..<nat (thresh - 1)], None),
           thr\<lparr>prng := (prng thr)\<lparr>pos := pos (prng thr) + nat (thresh - 1) * drawsQP (ringQP thr)\<rparr>\<rparr>)"
    by (rule qp)
  show "int (length (fst (fst (GenShamirPolynomialQ thr thresh secretQ)))) = thresh"
    using t by (simp add: q)
  show "int (length (fst (fst (GenShamirPolynomialQP thr thresh secret)))) = thresh"
    using t by (simp add: qp)
  show "list_all (wfPoly (ringQ thr)) (tl (fst (fst (GenShamirPolynomialQ thr thresh secretQ))))"
    by (simp add: q list_all_iff ring_Read_wf)
  show "list_all (wfPolyQP (ringQP thr)) (tl (fst (fst (GenShamirPolynomialQP thr thresh secret))))"
    by (simp add: qp list_all_iff ringqp_Read_wf)
qed

lemma ringqp_Read_ex:
  "ringqp_Read exParams exPRNG (ringqp_NewPoly exParams)
   = (\<lparr>Q = [[2, 5], [8, 11]], P = [[3, 6]]\<rparr>, exPRNG\<lparr>pos := 6\<rparr>)"
  by (simp add: ringqp_Read_def ring_Read_def exParams_def exPRNG_def ringqp_NewPoly_def
      ring_NewPoly_def upt_small Let_def)

lemma ring_Read_ex:
  "ring_Read (RingQ exParams) exPRNG (ring_NewPoly (RingQ exParams))
   = ([[2, 5], [8, 11]], exPRNG\<lparr>pos := 4\<rparr>)"
  by (simp add: ring_Read_def exParams_def exPRNG_def ring_NewPoly_def upt_small Let_def)

text \<open>
  Claim C5, as stated, fails on the level: over the chains \<open>Q = [7, 13]\<close>, \<open>P = [11]\<close>
  a secret with one \<open>Q\<close> limb (level 0) gets a sampled coefficient with two \<open>Q\<close> limbs
  (level 1), since the coefficient is allocated by \<open>NewPoly\<close> of the ring.
\<close>

theorem GenShamirPolynomial_level_counterexample:
  "GenShamirPolynomialQP (NewThresholdizer exParams exPRNG) 2 \<lparr>Q = [[3, 2]], P = [[5, 6]]\<rparr>
     = (([\<lparr>Q = [[3, 2]], P = [[5, 6]]\<rparr>, \<lparr>Q = [[2, 5], [8, 11]], P = [[3, 6]]\<rparr>], None),
        (NewThresholdizer exParams exPRNG)\<lparr>prng := exPRNG\<lparr>pos := 6\<rparr>\<rparr>)
   \<and> LevelQ \<lparr>Q = [[2, 5], [8, 11]], P = [[3, 6]]\<rparr> \<noteq> LevelQ \<lparr>Q = [[3, 2]], P = [[5, 6]]\<rparr>
   \<and> GenShamirPolynomialQ (NewThresholdizer exParams exPRNG) 2 [[3, 2]]
     = (([[[3, 2]], [[2, 5], [8, 11]]], None),
        (NewThresholdizer exParams exPRNG)\<lparr>prng := exPRNG\<lparr>pos := 4\<rparr>\<rparr>)
   \<and> Level [[2, 5], [8, 11]] \<noteq> Level [[3, 2]]"
  by (simp add: GenShamirPolynomialQP_def GenShamirPolynomialQ_def NewThresholdizer_def
      numeral_2_eq_2 ringqp_Read_ex ring_Read_ex LevelQ_def Level_def)

theorem GenShamirPolynomial_spec_witness:
  "(0 :: int) < 1 \<and> (1 :: int) \<le> 2
   \<and> GenShamirPolynomialQ (NewThresholdizer exParams exPRNG) 0 [[3, 2], [5, 4]]
       = (([], Some InvalidThreshold), NewThresholdizer exParams exPRNG)
   \<and> GenShamirPolynomialQP (NewThresholdizer exParams exPRNG) 0 \<lparr>Q = [[3, 2], [5, 4]], P = [[5, 6]]\<rparr>
       = (([], Some InvalidThreshold), NewThresholdizer exParams exPRNG)
   \<and> GenShamirPolynomialQP (NewThresholdizer exParams exPRNG) 2 \<lparr>Q = [[3, 2], [5, 4]], P = [[5, 6]]\<rparr>
     = (([\<lparr>Q = [[3, 2], [5, 4]], P = [[5, 6]]\<rparr>, \<lparr>Q = [[2, 5], [8, 11]], P = [[3, 6]]\<rparr>], None),
        (NewThresholdizer exParams exPRNG)\<lparr>prng := exPRNG\<lparr>pos := 6\<rparr>\<rparr>)
   \<and> GenShamirPolynomialQ (NewThresholdizer exParams exPRNG) 2 [[3, 2], [5, 4]]
     = (([[[3, 2], [5, 4]], [[2, 5], [8, 11]]], None),
        (NewThresholdizer exParams exPRNG)\<lparr>prng := exPRNG\<lparr>pos := 4\<rparr>\<rparr>)
   \<and> list_all (wfPolyQP exParams) [\<lparr>Q = [[2, 5], [8, 11]], P = [[3, 6]]\<rparr>]"
proof -
  have h0: "(0 :: int) < 1" and h2: "(1 :: int) \<le> 2" by simp_all
  have e: "[0..<nat (2 - 1)] = [0]" by simp
  have d: "drawsQ (RingQ exParams) = 4" "drawsQP exParams = 6"
    by (simp_all add: drawsQ_def drawsQP_def exParams_def)
  have p: "pos exPRNG = 0" "exPRNG\<lparr>pos := 0\<rparr> = exPRNG" by (simp_all add: exPRNG_def)
  have w: "wfPolyQP exParams \<lparr>Q = [[2, 5], [8, 11]], P = [[3, 6]]\<rparr>"
    by (simp add: wfPolyQP_def wfPoly_def exParams_def)
  show ?thesis
    using h0 h2
      GenShamirPolynomial_spec [of 0 "NewThresholdizer exParams exPRNG" "[[3, 2], [5, 4]]"
        "\<lparr>Q = [[3, 2], [5, 4]], P = [[5, 6]]\<rparr>"]
      GenShamirPolynomial_spec [of 2 "NewThresholdizer exParams exPRNG" "[[3, 2], [5, 4]]"
        "\<lparr>Q = [[3, 2], [5, 4]], P = [[5, 6]]\<rparr>"]
    by (simp add: NewThresholdizer_def e d p ringqp_Read_ex ring_Read_ex w)
qed

subsection \<open>Primes and Fermat's little theorem\<close>

lemma is_prime_divisors:
  assumes "is_prime p" "m dvd p"
  shows "m = 1 \<or> m = p"
proof (rule ccontr)
  assume a: "\<not> (m = 1 \<or> m = p)"
  have p: "1 < p" using assms(1) by (simp add: is_prime_def)
  have "m \<le> p" using assms(2) p by (intro dvd_imp_le) simp_all
  moreover have "m \<noteq> 0" using assms(2) p by (cases "m = 0") auto
  ultimately have "m \<in> set [2..<p]" using a by auto
  then have "\<not> m dvd p" using assms(1) by (simp add: is_prime_def list_all_iff)
  then show False using assms(2) by simp
qed

lemma is_prime_coprime:
  assumes "is_prime p" "\<not> p dvd a"
  shows "coprime p a"
proof -
  have "gcd p a = 1 \<or> gcd p a = p"
    using is_prime_divisors [OF assms(1), of "gcd p a"] by simp
  moreover have "gcd p a \<noteq> p" using assms(2) by (metis gcd_dvd2)
  ultimately show ?thesis by (simp add: coprime_iff_gcd_eq_1)
qed

lemma is_prime_dvd_mult:
  assumes "is_prime p" "p dvd a * b"
  shows "p dvd a \<or> p dvd b"
proof (cases "p dvd a")
  case True
  then show ?thesis by simp
next
  case False
  then have "coprime p a" using assms(1) by (rule is_prime_coprime [rotated])
  then show ?thesis using assms(2) by (simp add: coprime_dvd_mult_right_iff)
qed

lemma is_prime_dvd_mult_int:
  assumes "is_prime p" "int p dvd a * b"
  shows "int p dvd a \<or> int p dvd b"
proof -
  have "p dvd nat \<bar>a * b\<bar>" using assms(2) by simp
  then have "p dvd nat \<bar>a\<bar> * nat \<bar>b\<bar>" by (simp only: nat_abs_mult_distrib)
  then have "p dvd nat \<bar>a\<bar> \<or> p dvd nat \<bar>b\<bar>" by (rule is_prime_dvd_mult [OF assms(1)])
  then show ?thesis by simp
qed

lemma is_prime_dvd_binomial:
  assumes "is_prime p" "0 < k" "k < p"
  shows "p dvd (p choose k)"
proof -
  have "k * (p choose k) = p * ((p - 1) choose (k - 1))"
    using assms(2) by (rule times_binomial_minus1_eq)
  then have "p dvd (p choose k) * k" by (simp add: mult.commute)
  moreover have "\<not> p dvd k" using assms(2,3) by (auto dest: dvd_imp_le)
  ultimately show ?thesis using is_prime_dvd_mult [OF assms(1)] by blast
qed

lemma fermat_step:
  assumes "is_prime p"
  shows "(a + 1) ^ p mod p = (a ^ p + 1) mod p"
proof -
  have p: "1 < p" using assms by (simp add: is_prime_def)
  have "(a + 1) ^ p = (\<Sum>k\<le>p. (p choose k) * a ^ k)"
    using binomial [of a 1 p] by simp
  also have "{..p} = insert 0 (insert p {1..<p})" using p by auto
  also have "(\<Sum>k\<in>insert 0 (insert p {1..<p}). (p choose k) * a ^ k)
             = 1 + (a ^ p + (\<Sum>k\<in>{1..<p}. (p choose k) * a ^ k))"
    using p by simp
  finally have e: "(a + 1) ^ p = (a ^ p + 1) + (\<Sum>k\<in>{1..<p}. (p choose k) * a ^ k)" by simp
  have "p dvd (\<Sum>k\<in>{1..<p}. (p choose k) * a ^ k)"
    by (intro dvd_sum dvd_mult2 is_prime_dvd_binomial [OF assms]) auto
  then show ?thesis unfolding e by (metis mod_add_self2 dvd_def mod_mult_self2)
qed

lemma fermat_little_pow:
  assumes "is_prime p"
  shows "a ^ p mod p = a mod p"
proof (induction a)
  case 0
  then show ?case using assms by (cases p) (simp_all add: is_prime_def)
next
  case (Suc a)
  have "Suc a ^ p mod p = (a ^ p + 1) mod p" using fermat_step [OF assms, of a] by simp
  also have "\<dots> = (a ^ p mod p + 1) mod p" by (simp add: mod_simps)
  also have "\<dots> = (a + 1) mod p" by (simp add: Suc mod_simps)
  finally show ?case by simp
qed

lemma fermat_little:
  assumes "is_prime p" "\<not> p dvd a"
  shows "a ^ (p - 1) mod p = 1"
proof -
  have p: "1 < p" using assms by (simp add: is_prime_def)
  then have e: "a ^ p = a * a ^ (p - 1)" by (cases p) simp_all
  have "a \<le> a ^ p" using p assms(2) by (cases "a = 0") (simp_all add: e)
  have "(a * a ^ (p - 1)) mod p = (a * 1) mod p"
    using fermat_little_pow [OF assms(1), of a] by (simp add: e)
  then have "int p dvd int a * int (a ^ (p - 1)) - int a * 1"
    by (metis (no_types) of_nat_mult of_nat_mod mod_eq_dvd_iff of_nat_1 mult.right_neutral)
  then have "int p dvd int a * (int (a ^ (p - 1)) - 1)" by (simp add: right_diff_distrib)
  then have "int p dvd int a \<or> int p dvd int (a ^ (p - 1)) - 1"
    by (rule is_prime_dvd_mult_int [OF assms(1)])
  moreover have "\<not> int p dvd int a" using assms(2) by simp
  ultimately have "int p dvd int (a ^ (p - 1)) - 1" by blast
  then have "int (a ^ (p - 1)) mod int p = 1 mod int p"
    by (simp add: mod_eq_dvd_iff)
  then have "int (a ^ (p - 1) mod p) = int 1" using p
    by (simp add: zmod_int)
  then show ?thesis by (simp only: of_nat_eq_iff)
qed


subsection \<open>Polynomials with many roots modulo a prime\<close>

lemma peval_padd: "peval (padd p q) z = peval p z + peval q z"
  by (induction p q rule: padd.induct) (simp_all add: algebra_simps)

lemma length_padd: "length (padd p q) = max (length p) (length q)"
  by (induction p q rule: padd.induct) simp_all

lemma peval_smult: "peval (smult c p) z = c * peval p z"
  by (induction p) (simp_all add: smult_def algebra_simps)

lemma length_smult: "length (smult c p) = length p"
  by (simp add: smult_def)

lemma peval_plin: "peval (plin a p) z = (a - z) * peval p z"
  by (simp add: plin_def peval_padd peval_smult algebra_simps)

lemma length_plin: "length (plin a p) = Suc (length p)"
  by (simp add: plin_def length_padd length_smult)

lemma peval_pprod: "peval (pprod as) z = prod_list (map (\<lambda>a. a - z) as)"
  by (induction as) (simp_all add: peval_plin)

lemma length_pprod: "length (pprod as) = Suc (length as)"
  by (induction as) (simp_all add: length_plin)

lemma peval_psum: "peval (psum ps) z = sum_list (map (\<lambda>p. peval p z) ps)"
  by (induction ps) (simp_all add: peval_padd)

lemma length_psum: "(\<And>p. p \<in> set ps \<Longrightarrow> length p \<le> n) \<Longrightarrow> length (psum ps) \<le> n"
  by (induction ps) (simp_all add: length_padd)

lemma peval_sdiv: "peval p z = (z - a) * peval (sdiv p a) z + peval p a"
proof (induction p a rule: sdiv.induct)
  case (1 a)
  then show ?case by simp
next
  case (2 c a)
  then show ?case by simp
next
  case (3 c d ds a)
  define pz where "pz = peval (d # ds) z"
  define pa where "pa = peval (d # ds) a"
  define sz where "sz = peval (sdiv (d # ds) a) z"
  have ih: "pz = (z - a) * sz + pa" unfolding pz_def pa_def sz_def by (rule 3)
  have "peval (c # d # ds) z = c + z * pz" unfolding pz_def by simp
  moreover have "peval (sdiv (c # d # ds) a) z = pa + z * sz" unfolding pa_def sz_def by simp
  moreover have "peval (c # d # ds) a = c + a * pa" unfolding pa_def by simp
  ultimately show ?case by (simp add: ih algebra_simps)
qed

lemma length_sdiv: "length (sdiv p a) = length p - 1"
  by (induction p a rule: sdiv.induct) simp_all

lemma roots_imp_zero:
  assumes "is_prime q"
  shows "distinct (map (\<lambda>x. x mod int q) rs) \<Longrightarrow> length p \<le> length rs
         \<Longrightarrow> (\<And>r. r \<in> set rs \<Longrightarrow> int q dvd peval p r) \<Longrightarrow> int q dvd peval p z"
proof (induction rs arbitrary: p z)
  case Nil
  then show ?case by simp
next
  case (Cons a rs)
  have root: "int q dvd peval (sdiv p a) r" if r: "r \<in> set rs" for r
  proof -
    have "int q dvd peval p r" "int q dvd peval p a" using Cons.prems(3) r by simp_all
    then have "int q dvd peval p r - peval p a" by (rule dvd_diff)
    then have "int q dvd (r - a) * peval (sdiv p a) r"
      using peval_sdiv [of p r a] by simp
    then have "int q dvd r - a \<or> int q dvd peval (sdiv p a) r"
      by (rule is_prime_dvd_mult_int [OF assms])
    moreover have "r mod int q \<noteq> a mod int q" using Cons.prems(1) r by (auto simp: image_iff)
    then have "\<not> int q dvd r - a" by (simp add: mod_eq_dvd_iff)
    ultimately show ?thesis by blast
  qed
  have "int q dvd peval (sdiv p a) z"
  proof (rule Cons.IH)
    show "distinct (map (\<lambda>x. x mod int q) rs)" using Cons.prems(1) by simp
    show "length (sdiv p a) \<le> length rs" using Cons.prems(2) by (simp add: length_sdiv)
    show "\<And>r. r \<in> set rs \<Longrightarrow> int q dvd peval (sdiv p a) r" by (rule root)
  qed
  moreover have "int q dvd peval p a" using Cons.prems(3) by simp
  ultimately show ?case
    using peval_sdiv [of p z a] by (simp add: dvd_add dvd_mult)
qed


subsection \<open>Lagrange interpolation at zero modulo a prime\<close>

lemma is_prime_not_dvd_prod_list:
  assumes "is_prime q"
  shows "(\<And>x. x \<in> set xs \<Longrightarrow> \<not> int q dvd x) \<Longrightarrow> \<not> int q dvd prod_list xs"
proof (induction xs)
  case Nil
  then show ?case using assms by (simp add: is_prime_def)
next
  case (Cons x xs)
  show ?case
  proof
    assume "int q dvd prod_list (x # xs)"
    then have "int q dvd x * prod_list xs" by simp
    then have "int q dvd x \<or> int q dvd prod_list xs" by (rule is_prime_dvd_mult_int [OF assms])
    then show False using Cons by auto
  qed
qed

lemma is_prime_inverse_int:
  assumes "is_prime q" "\<not> int q dvd d"
  shows "\<exists>u. int q dvd u * d - 1"
proof -
  have "\<not> q dvd nat \<bar>d\<bar>" using assms(2) by simp
  then have "coprime q (nat \<bar>d\<bar>)" by (rule is_prime_coprime [OF assms(1)])
  then have "coprime (int q) d" by (simp only: coprime_nat_abs_right_iff)
  then have "gcd (int q) d = 1" by (simp only: coprime_iff_gcd_eq_1)
  then obtain u v where "u * int q + v * d = 1" using bezout_int [of "int q" d] by auto
  then have "v * d - 1 = int q * (- u)" by (simp add: algebra_simps)
  then show ?thesis by (metis dvd_triv_left)
qed

lemma sum_list_single:
  assumes "distinct xs" "m \<in> set xs" "\<And>a. a \<in> set xs \<Longrightarrow> a \<noteq> m \<Longrightarrow> g a = (0 :: int)"
  shows "sum_list (map g xs) = g m"
  using assms
proof (induction xs)
  case Nil
  then show ?case by simp
next
  case (Cons x xs)
  show ?case
  proof (cases "x = m")
    case True
    then have "\<And>a. a \<in> set xs \<Longrightarrow> g a = 0" using Cons.prems by auto
    then have "sum_list (map g xs) = 0" by (induction xs) simp_all
    then show ?thesis using True by simp
  next
    case False
    then have "g x = 0" "m \<in> set xs" using Cons.prems by auto
    then show ?thesis using Cons by simp
  qed
qed

lemma dvd_sum_list_diff:
  "(\<And>a. a \<in> set xs \<Longrightarrow> (k :: int) dvd f a - g a)
   \<Longrightarrow> k dvd sum_list (map f xs) - sum_list (map g xs)"
proof (induction xs)
  case Nil
  then show ?case by simp
next
  case (Cons x xs)
  have "k dvd (f x - g x) + (sum_list (map f xs) - sum_list (map g xs))"
    using Cons by (intro dvd_add) simp_all
  then show ?case by (simp add: algebra_simps)
qed

lemma length_filter_neq:
  "distinct xs \<Longrightarrow> a \<in> set xs \<Longrightarrow> Suc (length (filter (\<lambda>b. b \<noteq> a) xs)) = length xs"
proof (induction xs)
  case Nil
  then show ?case by simp
next
  case (Cons x xs)
  show ?case
  proof (cases "x = a")
    case True
    then have "filter (\<lambda>b. b \<noteq> a) xs = xs" using Cons.prems by (auto intro: filter_True)
    then show ?thesis using True by simp
  next
    case False
    then show ?thesis using Cons by simp
  qed
qed

lemma lagrange_at_zero:
  assumes q: "is_prime q"
    and d: "distinct (map (\<lambda>a. node a mod int q) ids)"
    and len: "length cs \<le> length ids"
    and out: "\<And>a. a \<in> set ids \<Longrightarrow>
         int q dvd out a * prod_list (map (\<lambda>b. node b - node a) (filter (\<lambda>b. b \<noteq> a) ids))
                   - peval cs (node a) * prod_list (map node (filter (\<lambda>b. b \<noteq> a) ids))"
  shows "int q dvd sum_list (map out ids) - peval cs 0"
proof -
  let ?oth = "\<lambda>a. filter (\<lambda>b. b \<noteq> a) ids"
  let ?D = "\<lambda>a. prod_list (map (\<lambda>b. node b - node a) (?oth a))"
  let ?X = "\<lambda>a. prod_list (map node (?oth a))"
  let ?y = "\<lambda>a. peval cs (node a)"
  have dist: "distinct ids" using d by (simp add: distinct_map)
  have nd: "\<not> int q dvd ?D a" if a: "a \<in> set ids" for a
  proof (rule is_prime_not_dvd_prod_list [OF q])
    fix x assume "x \<in> set (map (\<lambda>b. node b - node a) (?oth a))"
    then obtain b where b: "b \<in> set ids" "b \<noteq> a" "x = node b - node a" by auto
    then have "node b mod int q \<noteq> node a mod int q"
      using d a by (auto simp: distinct_map inj_on_def)
    then show "\<not> int q dvd x" using b by (simp add: mod_eq_dvd_iff)
  qed
  have "\<forall>a \<in> set ids. \<exists>u. int q dvd u * ?D a - 1"
    using is_prime_inverse_int [OF q nd] by blast
  then obtain u where u: "\<And>a. a \<in> set ids \<Longrightarrow> int q dvd u a * ?D a - 1"
    by metis
  define F where "F = padd (psum (map (\<lambda>a. smult (?y a * u a) (pprod (map node (?oth a)))) ids))
                          (smult (- 1) cs)"
  have evalF: "peval F z = sum_list (map (\<lambda>a. ?y a * u a * prod_list (map (\<lambda>b. node b - z) (?oth a))) ids)
                           - peval cs z" for z
    by (simp add: F_def peval_padd peval_psum peval_smult peval_pprod comp_def)
  have lenF: "length F \<le> length (map node ids)"
  proof -
    have "length (psum (map (\<lambda>a. smult (?y a * u a) (pprod (map node (?oth a)))) ids)) \<le> length ids"
      by (rule length_psum) (auto simp: length_smult length_pprod length_filter_neq [OF dist])
    then show ?thesis using len by (simp add: F_def length_padd length_smult)
  qed
  have root: "int q dvd peval F r" if r: "r \<in> set (map node ids)" for r
  proof -
    obtain m where m: "m \<in> set ids" "r = node m" using r by auto
    have zero: "?y a * u a * prod_list (map (\<lambda>b. node b - node m) (?oth a)) = 0"
      if a: "a \<in> set ids" "a \<noteq> m" for a
    proof -
      have "node m - node m \<in> set (map (\<lambda>b. node b - node m) (?oth a))"
        using m(1) a by auto
      then have "prod_list (map (\<lambda>b. node b - node m) (?oth a)) = 0"
        by (simp only: prod_list_zero_iff) simp
      then show ?thesis by simp
    qed
    have "sum_list (map (\<lambda>a. ?y a * u a * prod_list (map (\<lambda>b. node b - node m) (?oth a))) ids)
          = ?y m * u m * ?D m"
      by (rule sum_list_single [OF dist m(1)]) (rule zero)
    then have "peval F r = ?y m * (u m * ?D m - 1)"
      by (simp add: evalF m(2) algebra_simps)
    then show ?thesis using u [OF m(1)] by simp
  qed
  have "distinct (map (\<lambda>x. x mod int q) (map node ids))" using d by (simp add: comp_def)
  then have "int q dvd peval F 0"
    using lenF root by (rule roots_imp_zero [OF q])
  then have 1: "int q dvd sum_list (map (\<lambda>a. ?y a * u a * ?X a) ids) - peval cs 0"
    by (simp add: evalF)
  have 2: "int q dvd out a - ?y a * u a * ?X a" if a: "a \<in> set ids" for a
  proof -
    have a1: "int q dvd u a * (out a * ?D a - ?y a * ?X a)"
      using out [OF a] by (rule dvd_mult)
    have a2: "int q dvd out a * (u a * ?D a - 1)"
      using u [OF a] by (rule dvd_mult)
    have "int q dvd u a * (out a * ?D a - ?y a * ?X a) - out a * (u a * ?D a - 1)"
      using a1 a2 by (rule dvd_diff)
    moreover have "u a * (out a * ?D a - ?y a * ?X a) - out a * (u a * ?D a - 1)
                   = out a - ?y a * u a * ?X a"
      by (simp add: algebra_simps)
    ultimately show ?thesis by simp
  qed
  have "int q dvd sum_list (map out ids) - sum_list (map (\<lambda>a. ?y a * u a * ?X a) ids)"
    by (rule dvd_sum_list_diff) (rule 2)
  then have "int q dvd (sum_list (map out ids) - sum_list (map (\<lambda>a. ?y a * u a * ?X a) ids))
                    + (sum_list (map (\<lambda>a. ?y a * u a * ?X a) ids) - peval cs 0)"
    using 1 by (rule dvd_add)
  then show ?thesis by simp
qed

subsection \<open>Montgomery arithmetic in a limb\<close>

lemma eqm_refl: "eqm q a a"
  by (simp add: eqm_def)

lemma eqm_sym: "eqm q a b \<Longrightarrow> eqm q b a"
  by (simp add: eqm_def)

lemma eqm_trans [trans]: "eqm q a b \<Longrightarrow> eqm q b c \<Longrightarrow> eqm q a c"
  by (simp add: eqm_def)

lemma eqm_mult: "eqm q a b \<Longrightarrow> eqm q c d \<Longrightarrow> eqm q (a * c) (b * d)"
  unfolding eqm_def by (rule mod_mult_cong)

lemma eqm_add: "eqm q a b \<Longrightarrow> eqm q c d \<Longrightarrow> eqm q (a + c) (b + d)"
  unfolding eqm_def by (rule mod_add_cong)

lemma eqm_diff: "eqm q a b \<Longrightarrow> eqm q c d \<Longrightarrow> eqm q (a - c) (b - d)"
  unfolding eqm_def by (rule mod_diff_cong)

lemma eqm_power: "eqm q a b \<Longrightarrow> eqm q (a ^ n) (b ^ n)"
  unfolding eqm_def by (rule power_mod [symmetric, THEN trans]) (simp add: power_mod)

lemma eqm_mod: "eqm q (int (n mod q)) (int n)"
  by (simp add: eqm_def zmod_int)

lemma eqm_dvd: "eqm q a b \<longleftrightarrow> int q dvd a - b"
  by (simp add: eqm_def mod_eq_dvd_iff)

lemma eqm_0_dvd: "eqm q (int n) 0 \<longleftrightarrow> q dvd n"
  by (simp add: eqm_dvd)

lemma is_prime_dvd_power:
  assumes "is_prime p" "p dvd a ^ n"
  shows "p dvd a"
  using assms(2)
proof (induction n)
  case 0
  then show ?case using assms(1) by (simp add: is_prime_def)
next
  case (Suc n)
  then show ?case using is_prime_dvd_mult [OF assms(1), of a "a ^ n"] by auto
qed

lemma odd_prime_not_dvd_R:
  assumes "is_prime q" "odd q"
  shows "\<not> q dvd 2 ^ 64"
proof
  assume "q dvd 2 ^ 64"
  then have "q dvd 2" by (rule is_prime_dvd_power [OF assms(1)])
  then have "q \<le> 2" by (rule dvd_imp_le) simp
  moreover have "1 < q" using assms(1) by (simp add: is_prime_def)
  ultimately have "q = 2" by simp
  then show False using assms(2) by simp
qed

lemma RInv_eqm:
  assumes "is_prime q" "odd q"
  shows "eqm q (2 ^ 64 * int (RInv q)) 1"
proof -
  have q: "2 < q" using assms by (cases "q = 2") (auto simp: is_prime_def)
  then have e: "Suc (q - 2) = q - 1" by simp
  have "eqm q (2 ^ 64 * int (RInv q)) (2 ^ 64 * int ((2 ^ 64) ^ (q - 2)))"
    unfolding RInv_def by (intro eqm_mult eqm_refl eqm_mod)
  also have "2 ^ 64 * int ((2 ^ 64) ^ (q - 2)) = int ((2 ^ 64) ^ (q - 1))"
    by (simp add: e [symmetric] del: One_nat_def)
  also have "eqm q (int ((2 ^ 64) ^ (q - 1))) (int ((2 ^ 64) ^ (q - 1) mod q))"
    by (rule eqm_sym [OF eqm_mod])
  also have "(2 ^ 64) ^ (q - 1) mod q = 1"
    by (rule fermat_little [OF assms(1) odd_prime_not_dvd_R [OF assms]])
  finally show ?thesis by simp
qed

lemma MRed_eqm: "eqm q (int (MRed x y q)) (int x * int y * int (RInv q))"
  unfolding MRed_def using eqm_mod [of q "x * y * RInv q"] by simp

lemma MForm_eqm: "eqm q (int (MForm a q)) (int a * 2 ^ 64)"
  unfolding MForm_def using eqm_mod [of q "a * 2 ^ 64"] by simp

lemma ModexpMontgomery_eqm:
  "eqm q (int (ModexpMontgomery x e q)) (2 ^ 64 * (int x * int (RInv q)) ^ e)"
proof (induction e)
  case 0
  then show ?case using MForm_eqm [of q 1] by simp
next
  case (Suc e)
  have "eqm q (int (ModexpMontgomery x (Suc e) q))
          (int (ModexpMontgomery x e q) * int x * int (RInv q))"
    by (simp add: MRed_eqm)
  also have "eqm q (int (ModexpMontgomery x e q) * int x * int (RInv q))
          (2 ^ 64 * (int x * int (RInv q)) ^ e * int x * int (RInv q))"
    by (intro eqm_mult Suc eqm_refl)
  finally show ?case by (simp add: algebra_simps)
qed

lemma fermat_eqm:
  assumes "is_prime q" "\<not> eqm q a 0"
  shows "eqm q (a ^ (q - 1)) 1"
proof -
  have q: "0 < q" using assms(1) by (simp add: is_prime_def)
  define n where "n = nat (a mod int q)"
  have n: "int n = a mod int q" using q by (simp add: n_def)
  have an: "eqm q a (int n)" by (simp add: n eqm_def)
  have "\<not> q dvd n"
  proof
    assume "q dvd n"
    then have "eqm q (int n) 0" by (simp add: eqm_0_dvd)
    then show False using assms(2) an eqm_trans by blast
  qed
  then have f: "n ^ (q - 1) mod q = 1" by (rule fermat_little [OF assms(1)])
  then have f': "int (n ^ (q - 1) mod q) = 1" by (simp only: of_nat_1)
  have "eqm q (a ^ (q - 1)) (int n ^ (q - 1))" using an by (rule eqm_power)
  also have "int n ^ (q - 1) = int (n ^ (q - 1))" by simp
  also have "eqm q (int (n ^ (q - 1))) (int (n ^ (q - 1) mod q))" by (rule eqm_sym [OF eqm_mod])
  finally show ?thesis unfolding f' .
qed


lemma eqm_mult_cancel_RInv:
  assumes "is_prime q" "odd q" "eqm q (a * int (RInv q)) 0"
  shows "eqm q a 0"
proof -
  have "eqm q (a * 1) (a * (2 ^ 64 * int (RInv q)))"
    by (intro eqm_mult eqm_refl eqm_sym [OF RInv_eqm [OF assms(1,2)]])
  also have "a * (2 ^ 64 * int (RInv q)) = (a * int (RInv q)) * 2 ^ 64" by simp
  also have "eqm q ((a * int (RInv q)) * 2 ^ 64) (0 * 2 ^ 64)"
    by (intro eqm_mult assms(3) eqm_refl)
  finally show ?thesis by simp
qed

lemma lagrangeLimb_eqm:
  assumes q: "is_prime q" "odd q"
    and ne: "\<not> eqm q (node other) (node own)"
  shows "eqm q (int (lagrangeLimb q own other) * (node other - node own)) (2 ^ 64 * node other)"
proof -
  have q2: "2 < q" using q by (cases "q = 2") (auto simp: is_prime_def)
  define b where "b = unat other mod q"
  define a where "a = unat own mod q"
  define d where "d = (if a > b then b + q - a else b - a)"
  define rv where "rv = int (RInv q)"
  have ab: "a < q" "b < q" using q2 by (simp_all add: a_def b_def)
  have bb: "eqm q (int b) (node other)" unfolding b_def node_def by (rule eqm_mod)
  have aa: "eqm q (int a) (node own)" unfolding a_def node_def by (rule eqm_mod)
  have "eqm q (int d) (int b - int a)"
  proof (cases "a > b")
    case True
    then have "int d = int b - int a + int q" using ab by (simp add: d_def)
    then show ?thesis by (simp add: eqm_def)
  next
    case False
    then have "int d = int b - int a" by (simp add: d_def)
    then show ?thesis by (simp add: eqm_refl)
  qed
  also have "eqm q (int b - int a) (node other - node own)" by (intro eqm_diff aa bb)
  finally have dd: "eqm q (int d) (node other - node own)" .
  have d0: "\<not> eqm q (int d) 0"
  proof
    assume "eqm q (int d) 0"
    then have "eqm q (node other - node own) 0" using dd eqm_sym eqm_trans by blast
    then have "eqm q (node other - node own + node own) (0 + node own)"
      by (intro eqm_add eqm_refl)
    then show False using ne by simp
  qed
  have drv0: "\<not> eqm q (int d * rv) 0"
    using eqm_mult_cancel_RInv [OF q, of "int d"] d0 unfolding rv_def by blast
  have fermat: "eqm q ((int d * rv) ^ (q - 1)) 1" by (rule fermat_eqm [OF q(1) drv0])
  have e: "q - 1 = Suc (q - 2)" using q2 by simp
  have l: "lagrangeLimb q own other = MRed (ModexpMontgomery d (q - 2) q) b q"
    by (simp add: lagrangeLimb_def Let_def a_def b_def d_def)
  have "eqm q (int (lagrangeLimb q own other)) (int (ModexpMontgomery d (q - 2) q) * int b * rv)"
    unfolding l rv_def by (rule MRed_eqm)
  also have "eqm q (int (ModexpMontgomery d (q - 2) q) * int b * rv)
                   (2 ^ 64 * (int d * rv) ^ (q - 2) * int b * rv)"
    unfolding rv_def by (intro eqm_mult eqm_refl ModexpMontgomery_eqm)
  finally have c: "eqm q (int (lagrangeLimb q own other)) (2 ^ 64 * (int d * rv) ^ (q - 2) * int b * rv)" .
  have "eqm q (int (lagrangeLimb q own other) * (node other - node own))
              ((2 ^ 64 * (int d * rv) ^ (q - 2) * int b * rv) * int d)"
    by (intro eqm_mult c eqm_sym [OF dd])
  also have "(2 ^ 64 * (int d * rv) ^ (q - 2) * int b * rv) * int d
             = (int d * rv) ^ (q - 1) * (2 ^ 64 * int b)"
    unfolding e by (simp add: algebra_simps)
  also have "eqm q ((int d * rv) ^ (q - 1) * (2 ^ 64 * int b)) (1 * (2 ^ 64 * node other))"
    by (intro eqm_mult fermat eqm_refl bb)
  finally show ?thesis by simp
qed

lemma montgomeryProduct_eqm:
  assumes q: "is_prime q" "odd q"
  shows "(\<And>b. b \<in> set oth \<Longrightarrow> \<not> eqm q (node b) (node a)) \<Longrightarrow>
         eqm q (int (montgomeryProduct q s (map (lagrangeLimb q a) oth))
                 * prod_list (map (\<lambda>b. node b - node a) oth))
               (int s * prod_list (map node oth))"
proof (induction oth arbitrary: s)
  case Nil
  then show ?case by (simp add: montgomeryProduct_def eqm_refl)
next
  case (Cons b oth)
  define c where "c = lagrangeLimb q a b"
  define s' where "s' = MRed s c q"
  define rv where "rv = int (RInv q)"
  define mp where "mp = int (montgomeryProduct q s' (map (lagrangeLimb q a) oth))"
  define D where "D = prod_list (map (\<lambda>b. node b - node a) oth)"
  define X where "X = prod_list (map node oth)"
  have ih: "eqm q (mp * D) (int s' * X)"
    unfolding mp_def D_def X_def using Cons.prems by (intro Cons.IH) simp
  have cb: "eqm q (int c * (node b - node a)) (2 ^ 64 * node b)"
    unfolding c_def using Cons.prems by (intro lagrangeLimb_eqm [OF q]) simp
  have "eqm q (int s' * (node b - node a)) ((int s * int c * rv) * (node b - node a))"
    unfolding s'_def rv_def by (intro eqm_mult MRed_eqm eqm_refl)
  also have "(int s * int c * rv) * (node b - node a) = (int s * rv) * (int c * (node b - node a))"
    by simp
  also have "eqm q ((int s * rv) * (int c * (node b - node a))) ((int s * rv) * (2 ^ 64 * node b))"
    by (intro eqm_mult eqm_refl cb)
  also have "(int s * rv) * (2 ^ 64 * node b) = (2 ^ 64 * rv) * (int s * node b)" by simp
  also have "eqm q ((2 ^ 64 * rv) * (int s * node b)) (1 * (int s * node b))"
    unfolding rv_def by (intro eqm_mult RInv_eqm [OF q] eqm_refl)
  finally have sb: "eqm q (int s' * (node b - node a)) (int s * node b)" by simp
  have "montgomeryProduct q s (map (lagrangeLimb q a) (b # oth))
        = montgomeryProduct q s' (map (lagrangeLimb q a) oth)"
    by (simp add: montgomeryProduct_def s'_def c_def)
  then have "int (montgomeryProduct q s (map (lagrangeLimb q a) (b # oth)))
               * prod_list (map (\<lambda>b. node b - node a) (b # oth))
             = (mp * D) * (node b - node a)"
    by (simp add: mp_def D_def)
  also have "eqm q ((mp * D) * (node b - node a)) ((int s' * X) * (node b - node a))"
    by (intro eqm_mult ih eqm_refl)
  also have "(int s' * X) * (node b - node a) = (int s' * (node b - node a)) * X" by simp
  also have "eqm q ((int s' * (node b - node a)) * X) ((int s * node b) * X)"
    by (intro eqm_mult sb eqm_refl)
  finally show ?case by (simp add: X_def mult.assoc)
qed

lemma MontgomeryOne_eqm: "eqm q (int (MontgomeryOne q)) (2 ^ 64)"
proof -
  have "eqm q (int (MontgomeryOne q)) (int (1 mod q) * 2 ^ 64)"
    unfolding MontgomeryOne_def by (rule MForm_eqm)
  also have "eqm q (int (1 mod q) * 2 ^ 64) (int 1 * 2 ^ 64)"
    by (intro eqm_mult eqm_mod eqm_refl)
  finally show ?thesis by simp
qed

lemma additive_limb_eqm:
  assumes q: "is_prime q" "odd q"
    and ne: "\<And>b. b \<in> set oth \<Longrightarrow> \<not> eqm q (node b) (node a)"
    and y: "eqm q (int share) y"
  shows "eqm q (int (MRed share (montgomeryProduct q (MontgomeryOne q) (map (lagrangeLimb q a) oth)) q)
                 * prod_list (map (\<lambda>b. node b - node a) oth))
               (y * prod_list (map node oth))"
proof -
  define rv where "rv = int (RInv q)"
  define mp where "mp = int (montgomeryProduct q (MontgomeryOne q) (map (lagrangeLimb q a) oth))"
  define D where "D = prod_list (map (\<lambda>b. node b - node a) oth)"
  define X where "X = prod_list (map node oth)"
  have p: "eqm q (mp * D) (int (MontgomeryOne q) * X)"
    unfolding mp_def D_def X_def by (rule montgomeryProduct_eqm [OF q ne])
  have "eqm q (int (MRed share (montgomeryProduct q (MontgomeryOne q) (map (lagrangeLimb q a) oth)) q) * D)
              ((int share * mp * rv) * D)"
    unfolding mp_def rv_def by (intro eqm_mult MRed_eqm eqm_refl)
  also have "(int share * mp * rv) * D = (int share * rv) * (mp * D)" by simp
  also have "eqm q ((int share * rv) * (mp * D)) ((y * rv) * (2 ^ 64 * X))"
    by (intro eqm_mult y eqm_refl eqm_trans [OF p] MontgomeryOne_eqm)
  also have "(y * rv) * (2 ^ 64 * X) = (2 ^ 64 * rv) * (y * X)" by simp
  also have "eqm q ((2 ^ 64 * rv) * (y * X)) (1 * (y * X))"
    unfolding rv_def by (intro eqm_mult RInv_eqm [OF q] eqm_refl)
  finally show ?thesis by (simp add: D_def X_def)
qed

subsection \<open>The precomputed Lagrange coefficients\<close>

lemma node_eqm_iff: "0 < q \<Longrightarrow> eqm q (node b) (node a) \<longleftrightarrow> unat b mod q = unat a mod q"
proof -
  have "eqm q (node b) (node a) \<longleftrightarrow> int (unat b mod q) = int (unat a mod q)"
    by (simp add: eqm_def node_def zmod_int)
  then show ?thesis by (simp only: of_nat_eq_iff)
qed

text \<open>
  Claim C6, amended. \<open>NewCombiner\<close> stores a Lagrange coefficient for exactly the
  identities of \<open>others\<close> that differ from \<open>own\<close>, none for \<open>own\<close>. In every limb the
  coefficient is the result of the subtraction \<open>other - own\<close> in the limb, the inversion
  in the limb (by the exponent \<open>q - 2\<close>) and the Montgomery multiplication by \<open>other\<close>.
  In a limb whose modulus is an odd prime that does not divide \<open>other - own\<close>, it is the
  residue \<open>c\<close> with \<open>c * (other - own) = other * 2^64\<close> in the limb, the Montgomery form
  of \<open>(other - own)^{-1} * other\<close>.
\<close>

theorem NewCombiner_coefficients:
  "case NewCombiner params own others thresh of
     None \<Rightarrow> False
   | Some cmb \<Rightarrow>
       dom (lagrangeCoeffs cmb) = set others - {own}
       \<and> (\<forall>other \<in> set others - {own}.
            lagrangeCoeffs cmb other = Some (map (\<lambda>q. lagrangeLimb q own other) (chainQP params))
            \<and> (\<forall>q \<in> set (chainQP params).
                  is_prime q \<and> odd q \<and> unat other mod q \<noteq> unat own mod q
                  \<longrightarrow> lagrangeLimb q own other < q
                      \<and> eqm q (int (lagrangeLimb q own other) * (node other - node own))
                             (2 ^ 64 * node other)))"
proof -
  obtain cmb where nc: "NewCombiner params own others thresh = Some cmb"
    using NewCombiner_total by blast
  note f = NewCombiner_fields(7) [OF nc]
  have 1: "dom (lagrangeCoeffs cmb) = set others - {own}"
    by (auto simp: f dom_def split: if_splits)
  have 2: "lagrangeCoeffs cmb other = Some (map (\<lambda>q. lagrangeLimb q own other) (chainQP params))"
    if "other \<in> set others - {own}" for other
    using that by (simp add: f)
  have 3: "lagrangeLimb q own other < q
           \<and> eqm q (int (lagrangeLimb q own other) * (node other - node own)) (2 ^ 64 * node other)"
    if q: "is_prime q \<and> odd q \<and> unat other mod q \<noteq> unat own mod q" for q other
  proof
    have q0: "0 < q" using q by (simp add: is_prime_def)
    then show "lagrangeLimb q own other < q"
      by (simp add: lagrangeLimb_def Let_def MRed_def)
    have "\<not> eqm q (node other) (node own)" using q q0 by (simp add: node_eqm_iff)
    then show "eqm q (int (lagrangeLimb q own other) * (node other - node own)) (2 ^ 64 * node other)"
      using q by (intro lagrangeLimb_eqm) simp_all
  qed
  show ?thesis
    unfolding nc option.case using 1 2 3 by blast
qed

lemma is_prime_ex: "is_prime 7" "is_prime 13" "is_prime 11"
  by (simp_all add: is_prime_def upt_conv_Cons)

theorem NewCombiner_coefficients_witness:
  "case NewCombiner exParams 1 [1, 2, 3] 2 of
     None \<Rightarrow> False
   | Some cmb \<Rightarrow>
       dom (lagrangeCoeffs cmb) = {2, 3}
       \<and> lagrangeCoeffs cmb 2 = Some [4, 6, 10]
       \<and> is_prime 7 \<and> odd (7 :: nat) \<and> unat (2 :: 64 word) mod 7 \<noteq> unat (1 :: 64 word) mod 7
       \<and> lagrangeLimb 7 1 2 < 7
       \<and> eqm 7 (4 * (node 2 - node 1)) (2 ^ 64 * node 2)"
proof -
  obtain cmb where nc: "NewCombiner exParams 1 [1, 2, 3] 2 = Some cmb"
    using NewCombiner_total by blast
  have s: "set [1, 2, 3 :: 64 word] - {1} = {2, 3}" by auto
  have m: "(2 :: 64 word) \<in> {2, 3}" "(7 :: nat) \<in> set (chainQP exParams)"
    by (simp_all add: chainQP_exParams)
  have h: "is_prime 7 \<and> odd (7 :: nat) \<and> unat (2 :: 64 word) mod 7 \<noteq> unat (1 :: 64 word) mod 7"
    by (simp add: is_prime_ex)
  show ?thesis
    using NewCombiner_coefficients [where params = exParams and own = 1 and others = "[1, 2, 3]" and thresh = 2] h m
    unfolding nc option.case s
    by (auto simp: chainQP_exParams lagrangeLimb_ex)
qed

lemma lagrangeLimb_collision:
  "lagrangeLimb 7 2 9 = 0" "lagrangeLimb 7 9 2 = 0" "lagrangeLimb 7 3 10 = 0" "lagrangeLimb 7 10 3 = 0"
  unfolding lagrangeLimb_def Let_def
  by (simp_all add: MRed_ex ModexpMontgomery_numeral)

text \<open>
  Claim C6, as stated, fails. The identities 2 and 9 are distinct and agree modulo 7:
  over the chain \<open>[7]\<close> the difference \<open>other - own\<close> is zero in the limb and has no
  inverse; the coefficient stored for 9 is 0, which does not satisfy
  \<open>c * (other - own) = other * 2^64\<close> in the limb (no residue does).
\<close>

theorem NewCombiner_collision_counterexample:
  "(9 :: 64 word) \<noteq> 2 \<and> is_prime 7 \<and> odd (7 :: nat)
   \<and> (case NewCombiner exParams1 2 [9] 1 of
         None \<Rightarrow> False
       | Some cmb \<Rightarrow> lagrangeCoeffs cmb 9 = Some [0])
   \<and> eqm 7 (node 9 - node 2) 0
   \<and> \<not> eqm 7 (0 * (node 9 - node 2)) (2 ^ 64 * node 9)"
proof -
  obtain cmb where nc: "NewCombiner exParams1 2 [9] 1 = Some cmb"
    using NewCombiner_total by blast
  have "lagrangeCoeffs cmb 9 = Some [0]"
    by (simp add: NewCombiner_fields(7) [OF nc] chainQP_def exParams1_def lagrangeLimb_collision)
  moreover have "eqm 7 (node 9 - node 2) 0" "\<not> eqm 7 (0 * (node 9 - node 2)) (2 ^ 64 * node 9)"
    by (simp_all add: eqm_def node_def)
  ultimately show ?thesis
    unfolding nc option.case by (simp add: is_prime_ex)
qed

subsection \<open>Reconstruction in one coefficient of one limb\<close>

lemma peval_append: "peval (xs @ ys) z = peval xs z + z ^ length xs * peval ys z"
  by (induction xs) (simp_all add: algebra_simps)

lemma foldl_horner_eqm:
  "eqm q (int (foldl (\<lambda>acc c. ((acc * (x mod q)) mod q + c) mod q) hi lower))
         (peval (rev (map int lower) @ [int hi]) (int x))"
proof (induction lower arbitrary: hi)
  case Nil
  then show ?case by (simp add: eqm_refl)
next
  case (Cons c lower)
  define hi' where "hi' = ((hi * (x mod q)) mod q + c) mod q"
  have h: "eqm q (int hi') (int hi * int x + int c)"
  proof -
    have "eqm q (int hi') (int ((hi * (x mod q)) mod q + c))" unfolding hi'_def by (rule eqm_mod)
    also have "int ((hi * (x mod q)) mod q + c) = int ((hi * (x mod q)) mod q) + int c" by simp
    also have "eqm q (int ((hi * (x mod q)) mod q) + int c) (int (hi * (x mod q)) + int c)"
      by (intro eqm_add eqm_mod eqm_refl)
    also have "int (hi * (x mod q)) + int c = int hi * int (x mod q) + int c" by simp
    also have "eqm q (int hi * int (x mod q) + int c) (int hi * int x + int c)"
      by (intro eqm_add eqm_mult eqm_mod eqm_refl)
    finally show ?thesis .
  qed
  have "eqm q (int (foldl (\<lambda>acc c. ((acc * (x mod q)) mod q + c) mod q) hi (c # lower)))
              (peval (rev (map int lower) @ [int hi']) (int x))"
    using Cons [of hi'] by (simp add: hi'_def)
  also have "peval (rev (map int lower) @ [int hi']) (int x)
             = peval (rev (map int lower)) (int x) + int x ^ length lower * int hi'"
    by (simp add: peval_append)
  also have "eqm q (peval (rev (map int lower)) (int x) + int x ^ length lower * int hi')
                   (peval (rev (map int lower)) (int x) + int x ^ length lower * (int hi * int x + int c))"
    by (intro eqm_add eqm_mult eqm_refl h)
  also have "peval (rev (map int lower)) (int x) + int x ^ length lower * (int hi * int x + int c)
             = peval (rev (map int (c # lower)) @ [int hi]) (int x)"
    by (simp add: peval_append algebra_simps)
  finally show ?case .
qed

lemma evalLimb_eqm:
  assumes "cs \<noteq> []"
  shows "eqm q (int (evalLimb q cs x)) (peval (map int cs) (node x))"
proof -
  have "rev (map int (rev (butlast cs))) @ [int (last cs)] = map int (butlast cs @ [last cs])"
    by (simp add: rev_map)
  also have "\<dots> = map int cs" using assms by simp
  finally show ?thesis
    using foldl_horner_eqm [of q "unat x" "last cs" "rev (butlast cs)"]
    by (simp add: evalLimb_def node_def)
qed

lemma sumLimb_eqm: "eqm q (int (sumLimb q xs)) (sum_list (map int xs))"
proof (induction xs)
  case Nil
  then show ?case by (simp add: sumLimb_def eqm_refl)
next
  case (Cons x xs)
  have "sumLimb q (x # xs) = (sumLimb q xs + x) mod q" by (simp add: sumLimb_def)
  then have "eqm q (int (sumLimb q (x # xs))) (int (sumLimb q xs + x))"
    by (simp only: eqm_mod)
  also have "int (sumLimb q xs + x) = int (sumLimb q xs) + int x" by simp
  also have "eqm q (int (sumLimb q xs) + int x) (sum_list (map int xs) + int x)"
    by (intro eqm_add Cons eqm_refl)
  finally show ?case by (simp add: add.commute)
qed

lemma sumLimb_reduced: "xs \<noteq> [] \<Longrightarrow> sumLimb q xs mod q = sumLimb q xs"
  by (cases xs) (simp_all add: sumLimb_def)

lemma eqm_nat_eq:
  assumes "eqm q (int a) (int b)"
  shows "a mod q = b mod q"
proof -
  have "int (a mod q) = int (b mod q)" using assms by (simp add: eqm_def zmod_int)
  then show ?thesis by (simp only: of_nat_eq_iff)
qed

lemma reconstruct_limb:
  assumes q: "is_prime q" "odd q"
    and d: "distinct (map (\<lambda>a. unat a mod q) quorum)"
    and ne: "quorum \<noteq> []"
    and len: "length cs \<le> length quorum" "cs \<noteq> []"
    and sh: "\<And>a. a \<in> set quorum \<Longrightarrow> eqm q (int (share a)) (peval (map int cs) (node a))"
  shows "sumLimb q (map (\<lambda>a. additiveLimb q quorum a (share a)) quorum) = hd cs mod q"
proof -
  have q0: "0 < q" using q(1) by (simp add: is_prime_def)
  have d': "distinct (map (\<lambda>a. node a mod int q) quorum)"
  proof -
    have "map (\<lambda>a. node a mod int q) quorum = map int (map (\<lambda>a. unat a mod q) quorum)"
      by (simp add: node_def zmod_int)
    then show ?thesis using d by (simp only: distinct_map) (simp add: inj_on_def)
  qed
  have out: "int q dvd int (additiveLimb q quorum a (share a))
                 * prod_list (map (\<lambda>b. node b - node a) (filter (\<lambda>b. b \<noteq> a) quorum))
               - peval (map int cs) (node a) * prod_list (map node (filter (\<lambda>b. b \<noteq> a) quorum))"
    if a: "a \<in> set quorum" for a
  proof -
    have n: "\<not> eqm q (node b) (node a)" if "b \<in> set (filter (\<lambda>b. b \<noteq> a) quorum)" for b
    proof -
      have "b \<in> set quorum" "b \<noteq> a" using that by simp_all
      then have "unat b mod q \<noteq> unat a mod q" using d a by (auto simp: distinct_map inj_on_def)
      then show ?thesis using q0 by (simp add: node_eqm_iff)
    qed
    show ?thesis
      unfolding additiveLimb_def eqm_dvd [symmetric]
      by (rule additive_limb_eqm [OF q n sh [OF a]])
  qed
  have "int q dvd sum_list (map (\<lambda>a. int (additiveLimb q quorum a (share a))) quorum) - peval (map int cs) 0"
    using len(1) by (intro lagrange_at_zero [OF q(1) d'] out) simp
  moreover have "peval (map int cs) 0 = int (hd cs)" using len(2) by (cases cs) simp_all
  ultimately have "eqm q (sum_list (map int (map (\<lambda>a. additiveLimb q quorum a (share a)) quorum))) (int (hd cs))"
    by (simp add: eqm_dvd comp_def)
  then have "eqm q (int (sumLimb q (map (\<lambda>a. additiveLimb q quorum a (share a)) quorum))) (int (hd cs))"
    using sumLimb_eqm eqm_trans by blast
  then have "sumLimb q (map (\<lambda>a. additiveLimb q quorum a (share a)) quorum) mod q = hd cs mod q"
    by (rule eqm_nat_eq)
  then show ?thesis using ne by (simp add: sumLimb_reduced)
qed

subsection \<open>Ring operations on well-formed elements\<close>

lemma length_mkPoly: "length (mkPoly r f) = length (ModuliChain r)"
  by (simp add: mkPoly_def)

lemma mkPoly_limb: "l < length (ModuliChain r) \<Longrightarrow> mkPoly r f ! l = map (f l) [0..<RingDegree r]"
  by (simp add: mkPoly_def)

lemma mkPoly_nth:
  "l < length (ModuliChain r) \<Longrightarrow> n < RingDegree r \<Longrightarrow> mkPoly r f ! l ! n = f l n"
  by (simp add: mkPoly_def)

lemma wfPoly_mkPoly: "wfPoly r (mkPoly r f)"
  by (simp add: wfPoly_def mkPoly_def list_all_iff)

lemma wfPoly_eq_mkPoly:
  assumes "wfPoly r p"
  shows "p = mkPoly r (\<lambda>l n. p ! l ! n)"
proof (rule nth_equalityI)
  show "length p = length (mkPoly r (\<lambda>l n. p ! l ! n))"
    using assms by (simp add: wfPoly_def length_mkPoly)
next
  fix l assume l: "l < length p"
  then have "length (p ! l) = RingDegree r"
    using assms by (simp add: wfPoly_def list_all_length)
  then have "p ! l = map (\<lambda>n. p ! l ! n) [0..<RingDegree r]"
    by (intro nth_equalityI) simp_all
  then show "p ! l = mkPoly r (\<lambda>l n. p ! l ! n) ! l"
    using l assms by (simp add: mkPoly_limb wfPoly_def)
qed

lemma mkPoly_cong:
  "(\<And>l n. l < length (ModuliChain r) \<Longrightarrow> n < RingDegree r \<Longrightarrow> f l n = g l n)
   \<Longrightarrow> mkPoly r f = mkPoly r g"
  by (simp add: mkPoly_def)

lemma ring_MulScalar_mk:
  "ring_MulScalar r (mkPoly r f) x (mkPoly r g)
   = Some (mkPoly r (\<lambda>l n. (f l n * (unat x mod ModuliChain r ! l)) mod ModuliChain r ! l))"
  by (simp add: ring_MulScalar_def Let_def length_mkPoly mkPoly_limb cong: map_cong)
     (simp add: mkPoly_def)

lemma map2_same: "map2 h (map f xs) (map g xs) = map (\<lambda>x. h (f x) (g x)) xs"
  by (induction xs) simp_all

lemma ring_Add_mk:
  "ring_Add r (mkPoly r f) (mkPoly r g) (mkPoly r h)
   = Some (mkPoly r (\<lambda>l n. (f l n + g l n) mod ModuliChain r ! l))"
  by (simp add: ring_Add_def Let_def length_mkPoly mkPoly_limb cong: map_cong)
     (simp add: mkPoly_def map2_same)

lemma mulLimbs_mk:
  "mulLimbs (ModuliChain r) (mkPoly r f) s
   = mkPoly r (\<lambda>l n. MRed (f l n) (s ! l) (ModuliChain r ! l))"
  by (simp add: mulLimbs_def mkPoly_limb cong: map_cong) (simp add: mkPoly_def)

lemma ring_horner_mk:
  "ring_horner r (map (mkPoly r) fs) x (mkPoly r f)
   = Some (mkPoly r (\<lambda>l n. foldl (\<lambda>acc c. ((acc * (unat x mod ModuliChain r ! l)) mod ModuliChain r ! l + c)
                                        mod ModuliChain r ! l)
                         (f l n) (map (\<lambda>g. g l n) fs)))"
proof (induction fs arbitrary: f)
  case Nil
  then show ?case by simp
next
  case (Cons g fs)
  show ?case
    by (simp add: ring_MulScalar_mk ring_Add_mk Cons)
qed

lemma ring_EvalPolyScalar_mk:
  assumes "fs \<noteq> []"
  shows "ring_EvalPolyScalar r (map (mkPoly r) fs) x out
         = Some (mkPoly r (\<lambda>l n. evalLimb (ModuliChain r ! l) (map (\<lambda>g. g l n) fs) x))"
proof -
  obtain front hi where fs: "fs = front @ [hi]" using assms by (metis rev_exhaust)
  have "rev (map (mkPoly r) fs) = mkPoly r hi # map (mkPoly r) (rev front)"
    by (simp add: fs rev_map)
  then show ?thesis
    by (simp add: ring_EvalPolyScalar_def ring_horner_mk evalLimb_def fs rev_map)
qed

subsection \<open>Ring elements of both chains\<close>

lemma chainQP_chainP: "chainQP r = ModuliChain (RingQ r) @ chainP r"
  by (simp add: chainQP_def chainP_def)

lemma mkPolyQP_cong:
  assumes "\<And>l n. l < length (ModuliChain (RingQ r)) \<Longrightarrow> n < RingDegree (RingQ r) \<Longrightarrow> f l n = f' l n"
    and "\<And>rp l n. RingP r = Some rp \<Longrightarrow> l < length (ModuliChain rp) \<Longrightarrow> n < RingDegree rp
           \<Longrightarrow> g l n = g' l n"
  shows "mkPolyQP r f g = mkPolyQP r f' g'"
proof -
  have "mkPoly (RingQ r) f = mkPoly (RingQ r) f'" by (rule mkPoly_cong) (rule assms(1))
  moreover have "mkPoly rp g = mkPoly rp g'" if "RingP r = Some rp" for rp
    by (rule mkPoly_cong) (rule assms(2) [OF that])
  ultimately show ?thesis by (simp add: mkPolyQP_def split: option.split)
qed

lemma ring_NewPoly_mk: "ring_NewPoly r = mkPoly r (\<lambda>l n. 0)"
  by (simp add: ring_NewPoly_def mkPoly_def map_replicate_const)

lemma ringqp_NewPoly_mk: "ringqp_NewPoly r = mkPolyQP r (\<lambda>l n. 0) (\<lambda>l n. 0)"
  by (simp add: ringqp_NewPoly_def mkPolyQP_def ring_NewPoly_mk split: option.split)

lemma atRingLevel_mkPolyQP: "atRingLevel r (mkPolyQP r f g)"
  by (simp add: atRingLevel_def mkPolyQP_def length_mkPoly split: option.split)

lemma map_mkPoly_Q:
  assumes "list_all (wfPolyQP r) ps"
  shows "map Q ps = map (mkPoly (RingQ r)) (map (\<lambda>p l n. Q p ! l ! n) ps)"
  using assms wfPoly_eq_mkPoly [of "RingQ r"]
  by (auto simp: list_all_iff wfPolyQP_def)

lemma map_mkPoly_P:
  assumes "list_all (wfPolyQP r) ps" "RingP r = Some rp"
  shows "map P ps = map (mkPoly rp) (map (\<lambda>p l n. P p ! l ! n) ps)"
  using assms wfPoly_eq_mkPoly [of rp]
  by (auto simp: list_all_iff wfPolyQP_def)

lemma GenShamirSecretShareQP_closed:
  assumes "ps \<noteq> []" "list_all (wfPolyQP (ringQP thr)) ps"
  shows "GenShamirSecretShareQP thr x ps (AllocateThresholdSecretShare thr)
         = Some (mkPolyQP (ringQP thr)
                   (\<lambda>l n. evalLimb (ModuliChain (RingQ (ringQP thr)) ! l) (map (\<lambda>p. Q p ! l ! n) ps) x)
                   (\<lambda>l n. evalLimb (chainP (ringQP thr) ! l) (map (\<lambda>p. P p ! l ! n) ps) x))"
proof -
  let ?r = "ringQP thr"
  have q: "ring_EvalPolyScalar (RingQ ?r) (map Q ps) x out
        = Some (mkPoly (RingQ ?r) (\<lambda>l n. evalLimb (ModuliChain (RingQ ?r) ! l) (map (\<lambda>p. Q p ! l ! n) ps) x))"
    for out
  proof -
    have "ring_EvalPolyScalar (RingQ ?r) (map Q ps) x out
          = ring_EvalPolyScalar (RingQ ?r) (map (mkPoly (RingQ ?r)) (map (\<lambda>p l n. Q p ! l ! n) ps)) x out"
      by (simp only: map_mkPoly_Q [OF assms(2)])
    also have "\<dots> = Some (mkPoly (RingQ ?r) (\<lambda>l n. evalLimb (ModuliChain (RingQ ?r) ! l)
                         (map (\<lambda>g. g l n) (map (\<lambda>p l n. Q p ! l ! n) ps)) x))"
      by (rule ring_EvalPolyScalar_mk) (simp add: assms(1))
    finally show ?thesis by (simp add: comp_def)
  qed
  have p: "ring_EvalPolyScalar rp (map P ps) x out
        = Some (mkPoly rp (\<lambda>l n. evalLimb (ModuliChain rp ! l) (map (\<lambda>p. P p ! l ! n) ps) x))"
    if rp: "RingP ?r = Some rp" for rp out
  proof -
    have "ring_EvalPolyScalar rp (map P ps) x out
          = ring_EvalPolyScalar rp (map (mkPoly rp) (map (\<lambda>p l n. P p ! l ! n) ps)) x out"
      by (simp only: map_mkPoly_P [OF assms(2) rp])
    also have "\<dots> = Some (mkPoly rp (\<lambda>l n. evalLimb (ModuliChain rp ! l)
                         (map (\<lambda>g. g l n) (map (\<lambda>p l n. P p ! l ! n) ps)) x))"
      by (rule ring_EvalPolyScalar_mk) (simp add: assms(1))
    finally show ?thesis by (simp add: comp_def)
  qed
  show ?thesis
    by (simp add: GenShamirSecretShareQP_def ringqp_EvalPolyScalar_def q p mkPolyQP_def chainP_def
        AllocateThresholdSecretShare_def ringqp_NewPoly_def split: option.split)
qed


subsection \<open>Closed forms of the protocol steps\<close>

lemma lagrangeProducts_nth:
  assumes nc: "NewCombiner params own others thresh = Some cmb"
    and l: "l < length (chainQP params)"
    and ids: "\<And>b. b \<in> set ids \<Longrightarrow> b \<in> set others \<and> b \<noteq> own"
  shows "lagrangeProducts (chainQP params) (lagrangeCoeffs cmb) ids ! l
         = montgomeryProduct (chainQP params ! l) (MontgomeryOne (chainQP params ! l))
             (map (lagrangeLimb (chainQP params ! l) own) ids)"
proof -
  have "map (\<lambda>a. lookupCoeff (lagrangeCoeffs cmb) a ! l) ids
        = map (lagrangeLimb (chainQP params ! l) own) ids"
    using ids l by (intro map_cong) (simp_all add: NewCombiner_fields(7) [OF nc] lookupCoeff_def)
  then have "montgomeryProduct (chainQP params ! l) (MontgomeryOne (chainQP params ! l))
               (map (\<lambda>a. lookupCoeff (lagrangeCoeffs cmb) a ! l) ids)
             = montgomeryProduct (chainQP params ! l) (MontgomeryOne (chainQP params ! l))
               (map (lagrangeLimb (chainQP params ! l) own) ids)"
    by (rule arg_cong)
  then show ?thesis using l by (simp add: lagrangeProducts_def)
qed

lemma member_GenAdditiveShareQP:
  assumes nc: "NewCombiner params own quorum thresh = Some cmb"
    and t: "thresh = int (length quorum)"
  shows "GenAdditiveShareQP cmb quorum own (mkPolyQP params f g) (ringqp_NewPoly params)
         = Return None
             (mkPolyQP params
                (\<lambda>l n. additiveLimb (ModuliChain (RingQ params) ! l) quorum own (f l n))
                (\<lambda>l n. additiveLimb (chainP params ! l) quorum own (g l n)))"
proof -
  let ?ids = "filter (\<lambda>a. a \<noteq> own) quorum"
  let ?prods = "lagrangeProducts (chainQP params) (lagrangeCoeffs cmb) ?ids"
  let ?qs = "ModuliChain (RingQ params)"
  have tk: "take (nat thresh) quorum = quorum" using t by simp
  have h: "0 \<le> thresh" "thresh \<le> int (length quorum)"
    "\<forall>a \<in> set (take (nat thresh) quorum). a \<noteq> own \<longrightarrow> a \<in> set quorum \<and> a \<noteq> own"
    using t by (simp_all add: tk)
  have lv: "atRingLevel params (mkPolyQP params f g)" "atRingLevel params (ringqp_NewPoly params)"
    by (simp_all add: atRingLevel_mkPolyQP ringqp_NewPoly_mk)
  have pr: "?prods ! l = montgomeryProduct (chainQP params ! l) (MontgomeryOne (chainQP params ! l))
             (map (lagrangeLimb (chainQP params ! l) own) ?ids)"
    if "l < length (chainQP params)" for l
    by (rule lagrangeProducts_nth [OF nc that]) simp
  have lp: "length ?prods = length (chainQP params)" by (simp add: lagrangeProducts_def)
  have q: "mulLimbs ?qs (Q (mkPolyQP params f g)) ?prods
           = mkPoly (RingQ params) (\<lambda>l n. additiveLimb (?qs ! l) quorum own (f l n))"
  proof -
    have "mulLimbs ?qs (Q (mkPolyQP params f g)) ?prods
          = mkPoly (RingQ params) (\<lambda>l n. MRed (f l n) (?prods ! l) (?qs ! l))"
      by (simp add: mkPolyQP_def mulLimbs_mk)
    also have "\<dots> = mkPoly (RingQ params) (\<lambda>l n. additiveLimb (?qs ! l) quorum own (f l n))"
    proof (rule mkPoly_cong)
      fix l n assume l: "l < length ?qs"
      then have "l < length (chainQP params)" by (simp add: chainQP_chainP)
      from pr [OF this] l
      show "MRed (f l n) (?prods ! l) (?qs ! l) = additiveLimb (?qs ! l) quorum own (f l n)"
        by (simp add: chainQP_chainP nth_append additiveLimb_def)
    qed
    finally show ?thesis .
  qed
  have p: "mulLimbs (ModuliChain rp) (P (mkPolyQP params f g)) (drop (length ?qs) ?prods)
           = mkPoly rp (\<lambda>l n. additiveLimb (chainP params ! l) quorum own (g l n))"
    if rp: "RingP params = Some rp" for rp
  proof -
    have c: "chainP params = ModuliChain rp" using rp by (simp add: chainP_def)
    have "mulLimbs (ModuliChain rp) (P (mkPolyQP params f g)) (drop (length ?qs) ?prods)
          = mkPoly rp (\<lambda>l n. MRed (g l n) (drop (length ?qs) ?prods ! l) (ModuliChain rp ! l))"
      using rp by (simp add: mkPolyQP_def mulLimbs_mk)
    also have "\<dots> = mkPoly rp (\<lambda>l n. additiveLimb (chainP params ! l) quorum own (g l n))"
    proof (rule mkPoly_cong)
      fix l n assume l: "l < length (ModuliChain rp)"
      then have "length ?qs + l < length (chainQP params)" by (simp add: chainQP_chainP c)
      moreover from this have "drop (length ?qs) ?prods ! l = ?prods ! (length ?qs + l)"
        by (simp add: lp)
      ultimately show "MRed (g l n) (drop (length ?qs) ?prods ! l) (ModuliChain rp ! l)
                 = additiveLimb (chainP params ! l) quorum own (g l n)"
        using l by (simp add: pr) (simp add: chainQP_chainP c nth_append additiveLimb_def)
    qed
    finally show ?thesis .
  qed
  show ?thesis
  proof (cases "RingP params")
    case None
    then show ?thesis
      unfolding GenAdditiveShare_NewCombiner(1) [OF nc h lv] tk
      by (simp add: q) (simp add: mkPolyQP_def ringqp_NewPoly_def)
  next
    case (Some rp)
    then show ?thesis
      unfolding GenAdditiveShare_NewCombiner(1) [OF nc h lv] tk
      by (simp add: q p [OF Some]) (simp add: mkPolyQP_def)
  qed
qed

lemma ringqp_Add_mk:
  "ringqp_Add r (mkPolyQP r f g) (mkPolyQP r f' g') (mkPolyQP r f'' g'')
   = Some (mkPolyQP r (\<lambda>l n. (f l n + f' l n) mod ModuliChain (RingQ r) ! l)
                      (\<lambda>l n. (g l n + g' l n) mod chainP r ! l))"
  by (simp add: ringqp_Add_def mkPolyQP_def ring_Add_mk chainP_def split: option.split)

lemma sumShares_mk:
  "sumShares r (map (\<lambda>a. Some (mkPolyQP r (F a) (G a))) as)
   = Some (mkPolyQP r (\<lambda>l n. sumLimb (ModuliChain (RingQ r) ! l) (map (\<lambda>a. F a l n) as))
                      (\<lambda>l n. sumLimb (chainP r ! l) (map (\<lambda>a. G a l n) as)))"
proof (induction as)
  case Nil
  then show ?case by (simp add: ringqp_NewPoly_mk sumLimb_def)
next
  case (Cons a as)
  then show ?case by (simp add: ringqp_Add_mk sumLimb_def)
qed


lemma memberCombine_closed:
  assumes t: "thresh = int (length quorum)"
  shows "memberCombine params quorum thresh own (mkPolyQP params f g)
         = Some (mkPolyQP params
              (\<lambda>l n. additiveLimb (ModuliChain (RingQ params) ! l) quorum own (f l n))
              (\<lambda>l n. additiveLimb (chainP params ! l) quorum own (g l n)))"
proof -
  obtain cmb where nc: "NewCombiner params own quorum thresh = Some cmb"
    using NewCombiner_total by blast
  show ?thesis
    unfolding memberCombine_def nc option.case member_GenAdditiveShareQP [OF nc t]
    by simp
qed

lemma memberAdditiveShare_closed:
  assumes r: "ringQP thr = params"
    and ps: "ps \<noteq> []" "list_all (wfPolyQP params) ps"
    and t: "thresh = int (length quorum)"
  shows "memberAdditiveShare params thr ps quorum thresh own
         = Some (mkPolyQP params
              (\<lambda>l n. additiveLimb (ModuliChain (RingQ params) ! l) quorum own
                        (evalLimb (ModuliChain (RingQ params) ! l) (map (\<lambda>p. Q p ! l ! n) ps) own))
              (\<lambda>l n. additiveLimb (chainP params ! l) quorum own
                        (evalLimb (chainP params ! l) (map (\<lambda>p. P p ! l ! n) ps) own)))"
proof -
  have sh: "GenShamirSecretShareQP thr own ps (AllocateThresholdSecretShare thr)
            = Some (mkPolyQP params
                   (\<lambda>l n. evalLimb (ModuliChain (RingQ params) ! l) (map (\<lambda>p. Q p ! l ! n) ps) own)
                   (\<lambda>l n. evalLimb (chainP params ! l) (map (\<lambda>p. P p ! l ! n) ps) own))"
    using GenShamirSecretShareQP_closed [of ps thr own] ps by (simp add: r)
  show ?thesis
    unfolding memberAdditiveShare_def sh option.case by (rule memberCombine_closed [OF t])
qed

lemma GenShamirPolynomialQP_wf:
  assumes t: "1 \<le> thresh" and wf: "wfPolyQP params secret"
  shows "\<exists>ps thr. GenShamirPolynomialQP (NewThresholdizer params g) thresh secret = ((ps, None), thr)
           \<and> ringQP thr = params \<and> ps \<noteq> [] \<and> hd ps = secret \<and> int (length ps) = thresh
           \<and> list_all (wfPolyQP params) ps"
proof -
  define thr where "thr = NewThresholdizer params g"
  have r: "ringQP thr = params" by (simp add: thr_def NewThresholdizer_def)
  show ?thesis
    unfolding thr_def [symmetric] GenShamirPolynomialQP_closed [OF t]
    using t wf by (simp add: r list_all_iff ringqp_Read_wf)
qed

lemma reconstruct_sum:
  assumes t: "1 \<le> thresh" "int (length quorum) = thresh"
    and wf: "wfPolyQP params secret"
  shows "\<exists>ps. ps \<noteq> [] \<and> hd ps = secret \<and> length ps = length quorum
          \<and> reconstruct params g thresh secret quorum
            = Some (mkPolyQP params
                (\<lambda>l n. sumLimb (ModuliChain (RingQ params) ! l)
                   (map (\<lambda>a. additiveLimb (ModuliChain (RingQ params) ! l) quorum a
                      (evalLimb (ModuliChain (RingQ params) ! l) (map (\<lambda>p. Q p ! l ! n) ps) a)) quorum))
                (\<lambda>l n. sumLimb (chainP params ! l)
                   (map (\<lambda>a. additiveLimb (chainP params ! l) quorum a
                      (evalLimb (chainP params ! l) (map (\<lambda>p. P p ! l ! n) ps) a)) quorum)))"
proof -
  obtain ps thr where gen: "GenShamirPolynomialQP (NewThresholdizer params g) thresh secret = ((ps, None), thr)"
    and r: "ringQP thr = params"
    and ps: "ps \<noteq> []" "list_all (wfPolyQP params) ps" "hd ps = secret" "int (length ps) = thresh"
    using GenShamirPolynomialQP_wf [OF t(1) wf] by blast
  have "reconstruct params g thresh secret quorum
        = sumShares params (map (memberAdditiveShare params thr ps quorum thresh) quorum)"
    by (simp add: reconstruct_def gen)
  also have "map (memberAdditiveShare params thr ps quorum thresh) quorum
        = map (\<lambda>a. Some (mkPolyQP params
              (\<lambda>l n. additiveLimb (ModuliChain (RingQ params) ! l) quorum a
                        (evalLimb (ModuliChain (RingQ params) ! l) (map (\<lambda>p. Q p ! l ! n) ps) a))
              (\<lambda>l n. additiveLimb (chainP params ! l) quorum a
                        (evalLimb (chainP params ! l) (map (\<lambda>p. P p ! l ! n) ps) a)))) quorum"
    using t(2) by (simp add: memberAdditiveShare_closed [OF r ps(1,2)])
  also have "sumShares params \<dots>
        = Some (mkPolyQP params
            (\<lambda>l n. sumLimb (ModuliChain (RingQ params) ! l)
               (map (\<lambda>a. additiveLimb (ModuliChain (RingQ params) ! l) quorum a
                        (evalLimb (ModuliChain (RingQ params) ! l) (map (\<lambda>p. Q p ! l ! n) ps) a)) quorum))
            (\<lambda>l n. sumLimb (chainP params ! l)
               (map (\<lambda>a. additiveLimb (chainP params ! l) quorum a
                        (evalLimb (chainP params ! l) (map (\<lambda>p. P p ! l ! n) ps) a)) quorum)))"
    by (rule sumShares_mk)
  finally show ?thesis using ps t by auto
qed

subsection \<open>Reconstruction\<close>

lemma chain_member:
  "l < length (ModuliChain (RingQ params)) \<Longrightarrow> ModuliChain (RingQ params) ! l \<in> set (chainQP params)"
  "RingP params = Some rp \<Longrightarrow> l < length (ModuliChain rp) \<Longrightarrow> chainP params ! l \<in> set (chainQP params)"
  by (simp_all add: chainQP_chainP chainP_def)

lemma reconstruct_closed:
  assumes t: "1 \<le> thresh" "int (length quorum) = thresh"
    and wf: "wfPolyQP params secret"
    and qs: "list_all (\<lambda>q. is_prime q \<and> odd q \<and> distinct (map (\<lambda>a. unat a mod q) quorum))
               (chainQP params)"
  shows "reconstruct params g thresh secret quorum = Some (residuesQP params secret)"
proof -
  obtain ps where ps: "ps \<noteq> []" "hd ps = secret" "length ps = length quorum"
    and rc: "reconstruct params g thresh secret quorum
            = Some (mkPolyQP params
                (\<lambda>l n. sumLimb (ModuliChain (RingQ params) ! l)
                   (map (\<lambda>a. additiveLimb (ModuliChain (RingQ params) ! l) quorum a
                      (evalLimb (ModuliChain (RingQ params) ! l) (map (\<lambda>p. Q p ! l ! n) ps) a)) quorum))
                (\<lambda>l n. sumLimb (chainP params ! l)
                   (map (\<lambda>a. additiveLimb (chainP params ! l) quorum a
                      (evalLimb (chainP params ! l) (map (\<lambda>p. P p ! l ! n) ps) a)) quorum)))"
    using reconstruct_sum [OF t wf] by blast
  have ne: "quorum \<noteq> []" using t by auto
  have hd: "hd (map f ps) = f secret" for f :: "PolyQP \<Rightarrow> nat"
    using ps by (simp add: hd_map)
  have limb: "sumLimb q (map (\<lambda>a. additiveLimb q quorum a (evalLimb q (map f ps) a)) quorum)
              = f secret mod q"
    if "q \<in> set (chainQP params)" for q and f :: "PolyQP \<Rightarrow> nat"
  proof -
    have q: "is_prime q" "odd q" "distinct (map (\<lambda>a. unat a mod q) quorum)"
      using qs that by (auto simp: list_all_iff)
    have "sumLimb q (map (\<lambda>a. additiveLimb q quorum a (evalLimb q (map f ps) a)) quorum)
          = hd (map f ps) mod q"
    proof (rule reconstruct_limb [OF q ne])
      show "length (map f ps) \<le> length quorum" "map f ps \<noteq> []" by (simp_all add: ps)
      show "eqm q (int (evalLimb q (map f ps) a)) (peval (map int (map f ps)) (node a))" for a
        by (rule evalLimb_eqm) (simp add: ps)
    qed
    then show ?thesis by (simp only: hd)
  qed
  show ?thesis
    unfolding rc residuesQP_def option.inject
  proof (rule mkPolyQP_cong)
    fix l n assume "l < length (ModuliChain (RingQ params))"
    then have "ModuliChain (RingQ params) ! l \<in> set (chainQP params)"
      by (rule chain_member)
    then show "sumLimb (ModuliChain (RingQ params) ! l)
               (map (\<lambda>a. additiveLimb (ModuliChain (RingQ params) ! l) quorum a
                        (evalLimb (ModuliChain (RingQ params) ! l) (map (\<lambda>p. Q p ! l ! n) ps) a)) quorum)
               = Q secret ! l ! n mod ModuliChain (RingQ params) ! l"
      by (rule limb)
  next
    fix rp l n assume "RingP params = Some rp" "l < length (ModuliChain rp)"
    then have "chainP params ! l \<in> set (chainQP params)"
      by (rule chain_member)
    then show "sumLimb (chainP params ! l)
               (map (\<lambda>a. additiveLimb (chainP params ! l) quorum a
                        (evalLimb (chainP params ! l) (map (\<lambda>p. P p ! l ! n) ps) a)) quorum)
               = P secret ! l ! n mod chainP params ! l"
      by (rule limb)
  qed
qed

lemma nth_reducedPoly:
  assumes "reducedPoly r p" "wfPoly r p" "l < length (ModuliChain r)" "n < RingDegree r"
  shows "p ! l ! n mod ModuliChain r ! l = p ! l ! n"
proof -
  have "list_all (\<lambda>c. c < ModuliChain r ! l) (p ! l)"
    using assms(1,3) unfolding reducedPoly_def by (rule list_all2_nthD)
  moreover have "n < length (p ! l)"
    using assms(2,3,4) by (simp add: wfPoly_def list_all_length)
  ultimately show ?thesis by (simp add: list_all_length)
qed

lemma residuesQP_reduced:
  assumes wf: "wfPolyQP r s" and rd: "reducedQP r s"
  shows "residuesQP r s = s"
proof -
  have "mkPoly (RingQ r) (\<lambda>l n. Q s ! l ! n mod ModuliChain (RingQ r) ! l)
        = mkPoly (RingQ r) (\<lambda>l n. Q s ! l ! n)"
    using wf rd by (intro mkPoly_cong nth_reducedPoly) (simp_all add: wfPolyQP_def reducedQP_def)
  also have "\<dots> = Q s"
    using wf by (intro wfPoly_eq_mkPoly [symmetric]) (simp add: wfPolyQP_def)
  finally have q: "mkPoly (RingQ r) (\<lambda>l n. Q s ! l ! n mod ModuliChain (RingQ r) ! l) = Q s" .
  have p: "mkPoly rp (\<lambda>l n. P s ! l ! n mod chainP r ! l) = P s" if rp: "RingP r = Some rp" for rp
  proof -
    have "mkPoly rp (\<lambda>l n. P s ! l ! n mod chainP r ! l) = mkPoly rp (\<lambda>l n. P s ! l ! n)"
      using wf rd rp by (intro mkPoly_cong) (simp add: wfPolyQP_def reducedQP_def chainP_def nth_reducedPoly)
    also have "\<dots> = P s"
      using wf rp by (intro wfPoly_eq_mkPoly [symmetric]) (simp add: wfPolyQP_def)
    finally show ?thesis .
  qed
  have "residuesQP r s = \<lparr>Q = Q s, P = P s\<rparr>"
  proof (cases "RingP r")
    case None
    then have "P s = []" using rd by (simp add: reducedQP_def)
    then show ?thesis by (simp add: residuesQP_def mkPolyQP_def q None)
  next
    case (Some rp)
    then show ?thesis by (simp add: residuesQP_def mkPolyQP_def q p [OF Some])
  qed
  then show ?thesis by simp
qed

text \<open>
  Claim C1, amended. A dealer generates a Shamir polynomial of threshold \<open>t \<ge> 1\<close> whose
  constant coefficient is the secret, the share of every member of a quorum of exactly
  \<open>t\<close> identities is evaluated, and every member combines its share with a \<open>Combiner\<close>
  built over that quorum. When every modulus of the chain is an odd prime and the
  identities of the quorum are pairwise distinct modulo every modulus of the chain, the
  additive shares sum, in the ring, to the residues of the secret modulo the chain; for
  a secret whose coefficients are reduced this is the secret itself. Identities that
  differ as 64-bit integers are not enough.
\<close>

theorem reconstruction_correctness:
  assumes "1 \<le> thresh" "int (length quorum) = thresh" "wfPolyQP params secret"
    and "list_all (\<lambda>q. is_prime q \<and> odd q \<and> distinct (map (\<lambda>a. unat a mod q) quorum))
           (chainQP params)"
  shows "reconstruct params g thresh secret quorum = Some (residuesQP params secret)
         \<and> (reducedQP params secret \<longrightarrow> reconstruct params g thresh secret quorum = Some secret)"
  using assms by (simp add: reconstruct_closed residuesQP_reduced)

theorem reconstruction_correctness_witness:
  "reconstruct exParams exPRNG 2 \<lparr>Q = [[3, 2], [5, 4]], P = [[5, 6]]\<rparr> [2, 3]
   = Some \<lparr>Q = [[3, 2], [5, 4]], P = [[5, 6]]\<rparr>"
proof -
  have h: "list_all (\<lambda>q. is_prime q \<and> odd q \<and> distinct (map (\<lambda>a. unat a mod q) [2, 3 :: 64 word]))
             (chainQP exParams)"
    by (simp add: chainQP_exParams is_prime_ex)
  have w: "wfPolyQP exParams \<lparr>Q = [[3, 2], [5, 4]], P = [[5, 6]]\<rparr>"
    "reducedQP exParams \<lparr>Q = [[3, 2], [5, 4]], P = [[5, 6]]\<rparr>"
    by (simp_all add: wfPolyQP_def wfPoly_def reducedQP_def reducedPoly_def exParams_def)
  have t: "(1 :: int) \<le> 2" "int (length [2, 3 :: 64 word]) = 2" by simp_all
  show ?thesis
    using reconstruction_correctness [OF t w(1) h, of exPRNG] w(2) by blast
qed

lemma additiveLimb_collision:
  "additiveLimb 7 [2, 9] 2 x = 0" "additiveLimb 7 [2, 9] 9 x = 0"
  "additiveLimb 7 [3, 10] 3 x = 0" "additiveLimb 7 [3, 10] 10 x = 0"
  unfolding additiveLimb_def
  by (simp_all add: montgomeryProduct_def MRed_ex lagrangeLimb_collision)

text \<open>
  The identities 2 and 9 are distinct and agree modulo 7: over the chain \<open>[7]\<close> the
  additive shares of the quorum \<open>[2, 9]\<close> are zero and so is their sum, whatever the
  secret.
\<close>

theorem reconstruction_collision_counterexample:
  "distinct [2, 9 :: 64 word]
   \<and> reconstruct exParams1 exPRNG 2 \<lparr>Q = [[3, 2]], P = []\<rparr> [2, 9] = Some \<lparr>Q = [[0, 0]], P = []\<rparr>"
proof -
  have wf: "wfPolyQP exParams1 \<lparr>Q = [[3, 2]], P = []\<rparr>"
    by (simp add: wfPolyQP_def wfPoly_def exParams1_def)
  have t: "(1 :: int) \<le> 2" "int (length [2, 9 :: 64 word]) = 2" by simp_all
  obtain ps :: "PolyQP list"
    where rc: "reconstruct exParams1 exPRNG 2 \<lparr>Q = [[3, 2]], P = []\<rparr> [2, 9]
            = Some (mkPolyQP exParams1
                (\<lambda>l n. sumLimb (ModuliChain (RingQ exParams1) ! l)
                   (map (\<lambda>a. additiveLimb (ModuliChain (RingQ exParams1) ! l) [2, 9] a
                      (evalLimb (ModuliChain (RingQ exParams1) ! l) (map (\<lambda>p. Q p ! l ! n) ps) a)) [2, 9]))
                (\<lambda>l n. sumLimb (chainP exParams1 ! l)
                   (map (\<lambda>a. additiveLimb (chainP exParams1 ! l) [2, 9] a
                      (evalLimb (chainP exParams1 ! l) (map (\<lambda>p. P p ! l ! n) ps) a)) [2, 9])))"
    using reconstruct_sum [OF t wf] by blast
  show ?thesis
    unfolding rc
    by (simp add: mkPolyQP_def mkPoly_def exParams1_def upt_small sumLimb_def additiveLimb_collision)
qed


subsection \<open>Aggregation before reconstruction\<close>

lemma pointwiseSum_mk:
  "pointwiseSum (ModuliChain r) (mkPoly r f) (mkPoly r g)
   = mkPoly r (\<lambda>l n. (f l n + g l n) mod ModuliChain r ! l)"
  by (simp add: pointwiseSum_def length_mkPoly mkPoly_limb cong: map_cong)
     (simp add: mkPoly_def map2_same)

lemma AggregateShares_mk:
  assumes r: "ringQP thr = r"
  shows "AggregateShares thr (mkPolyQP r f g) (mkPolyQP r f' g') (AllocateThresholdSecretShare thr)
         = Return None (mkPolyQP r (\<lambda>l n. (f l n + f' l n) mod ModuliChain (RingQ r) ! l)
                                   (\<lambda>l n. (g l n + g' l n) mod chainP r ! l))"
proof -
  have a: "AllocateThresholdSecretShare thr = mkPolyQP r (\<lambda>l n. 0) (\<lambda>l n. 0)"
    by (simp add: AllocateThresholdSecretShare_def r ringqp_NewPoly_mk)
  have "AggregateShares thr (mkPolyQP r f g) (mkPolyQP r f' g') (mkPolyQP r (\<lambda>l n. 0) (\<lambda>l n. 0))
        = Return None
            \<lparr>Q = pointwiseSum (ModuliChain (RingQ (ringQP thr))) (Q (mkPolyQP r f g)) (Q (mkPolyQP r f' g')),
             P = (case RingP (ringQP thr) of None \<Rightarrow> P (mkPolyQP r (\<lambda>l n. 0) (\<lambda>l n. 0))
                  | Some rp \<Rightarrow> pointwiseSum (ModuliChain rp) (P (mkPolyQP r f g)) (P (mkPolyQP r f' g')))\<rparr>"
    by (rule AggregateShares_closed)
       (simp add: r LevelQ_def LevelP_def Level_def mkPolyQP_def length_mkPoly split: option.split)
  also have "\<dots> = Return None (mkPolyQP r (\<lambda>l n. (f l n + f' l n) mod ModuliChain (RingQ r) ! l)
                                   (\<lambda>l n. (g l n + g' l n) mod chainP r ! l))"
    by (simp add: r mkPolyQP_def pointwiseSum_mk chainP_def split: option.split)
  finally show ?thesis by (simp only: a)
qed

lemma memberAggregatedShare_closed:
  assumes r: "ringQP thr1 = params" "ringQP thr2 = params"
    and ps1: "ps1 \<noteq> []" "list_all (wfPolyQP params) ps1"
    and ps2: "ps2 \<noteq> []" "list_all (wfPolyQP params) ps2"
    and t: "thresh = int (length quorum)"
  shows "memberAggregatedShare params thr1 ps1 thr2 ps2 quorum thresh own
         = Some (mkPolyQP params
              (\<lambda>l n. additiveLimb (ModuliChain (RingQ params) ! l) quorum own
                        ((evalLimb (ModuliChain (RingQ params) ! l) (map (\<lambda>p. Q p ! l ! n) ps1) own
                          + evalLimb (ModuliChain (RingQ params) ! l) (map (\<lambda>p. Q p ! l ! n) ps2) own)
                         mod ModuliChain (RingQ params) ! l))
              (\<lambda>l n. additiveLimb (chainP params ! l) quorum own
                        ((evalLimb (chainP params ! l) (map (\<lambda>p. P p ! l ! n) ps1) own
                          + evalLimb (chainP params ! l) (map (\<lambda>p. P p ! l ! n) ps2) own)
                         mod chainP params ! l)))"
proof -
  have sh1: "GenShamirSecretShareQP thr1 own ps1 (AllocateThresholdSecretShare thr1)
            = Some (mkPolyQP params
                   (\<lambda>l n. evalLimb (ModuliChain (RingQ params) ! l) (map (\<lambda>p. Q p ! l ! n) ps1) own)
                   (\<lambda>l n. evalLimb (chainP params ! l) (map (\<lambda>p. P p ! l ! n) ps1) own))"
    using GenShamirSecretShareQP_closed [of ps1 thr1 own] ps1 by (simp add: r)
  have sh2: "GenShamirSecretShareQP thr2 own ps2 (AllocateThresholdSecretShare thr2)
            = Some (mkPolyQP params
                   (\<lambda>l n. evalLimb (ModuliChain (RingQ params) ! l) (map (\<lambda>p. Q p ! l ! n) ps2) own)
                   (\<lambda>l n. evalLimb (chainP params ! l) (map (\<lambda>p. P p ! l ! n) ps2) own))"
    using GenShamirSecretShareQP_closed [of ps2 thr2 own] ps2 by (simp add: r)
  show ?thesis
    unfolding memberAggregatedShare_def sh1 sh2 option.case AggregateShares_mk [OF r(1)]
      outcome.case memberCombine_closed [OF t]
    by simp
qed

lemma reconstructAggregated_sum:
  assumes t: "1 \<le> thresh" "int (length quorum) = thresh"
    and wf: "wfPolyQP params secret1" "wfPolyQP params secret2"
  shows "\<exists>ps1 ps2. ps1 \<noteq> [] \<and> hd ps1 = secret1 \<and> length ps1 = length quorum
          \<and> ps2 \<noteq> [] \<and> hd ps2 = secret2 \<and> length ps2 = length quorum
          \<and> reconstructAggregated params g1 g2 thresh secret1 secret2 quorum
            = Some (mkPolyQP params
                (\<lambda>l n. sumLimb (ModuliChain (RingQ params) ! l)
                   (map (\<lambda>a. additiveLimb (ModuliChain (RingQ params) ! l) quorum a
                      ((evalLimb (ModuliChain (RingQ params) ! l) (map (\<lambda>p. Q p ! l ! n) ps1) a
                        + evalLimb (ModuliChain (RingQ params) ! l) (map (\<lambda>p. Q p ! l ! n) ps2) a)
                       mod ModuliChain (RingQ params) ! l)) quorum))
                (\<lambda>l n. sumLimb (chainP params ! l)
                   (map (\<lambda>a. additiveLimb (chainP params ! l) quorum a
                      ((evalLimb (chainP params ! l) (map (\<lambda>p. P p ! l ! n) ps1) a
                        + evalLimb (chainP params ! l) (map (\<lambda>p. P p ! l ! n) ps2) a)
                       mod chainP params ! l)) quorum)))"
proof -
  obtain ps1 thr1 where gen1: "GenShamirPolynomialQP (NewThresholdizer params g1) thresh secret1 = ((ps1, None), thr1)"
    and r1: "ringQP thr1 = params"
    and ps1: "ps1 \<noteq> []" "list_all (wfPolyQP params) ps1" "hd ps1 = secret1" "int (length ps1) = thresh"
    using GenShamirPolynomialQP_wf [OF t(1) wf(1)] by blast
  obtain ps2 thr2 where gen2: "GenShamirPolynomialQP (NewThresholdizer params g2) thresh secret2 = ((ps2, None), thr2)"
    and r2: "ringQP thr2 = params"
    and ps2: "ps2 \<noteq> []" "list_all (wfPolyQP params) ps2" "hd ps2 = secret2" "int (length ps2) = thresh"
    using GenShamirPolynomialQP_wf [OF t(1) wf(2)] by blast
  have "reconstructAggregated params g1 g2 thresh secret1 secret2 quorum
        = sumShares params (map (memberAggregatedShare params thr1 ps1 thr2 ps2 quorum thresh) quorum)"
    by (simp add: reconstructAggregated_def gen1 gen2)
  also have "map (memberAggregatedShare params thr1 ps1 thr2 ps2 quorum thresh) quorum
        = map (\<lambda>a. Some (mkPolyQP params
              (\<lambda>l n. additiveLimb (ModuliChain (RingQ params) ! l) quorum a
                        ((evalLimb (ModuliChain (RingQ params) ! l) (map (\<lambda>p. Q p ! l ! n) ps1) a
                          + evalLimb (ModuliChain (RingQ params) ! l) (map (\<lambda>p. Q p ! l ! n) ps2) a)
                         mod ModuliChain (RingQ params) ! l))
              (\<lambda>l n. additiveLimb (chainP params ! l) quorum a
                        ((evalLimb (chainP params ! l) (map (\<lambda>p. P p ! l ! n) ps1) a
                          + evalLimb (chainP params ! l) (map (\<lambda>p. P p ! l ! n) ps2) a)
                         mod chainP params ! l)))) quorum"
    using t(2) by (simp add: memberAggregatedShare_closed [OF r1 r2 ps1(1,2) ps2(1,2)])
  also have "sumShares params \<dots>
        = Some (mkPolyQP params
                (\<lambda>l n. sumLimb (ModuliChain (RingQ params) ! l)
                   (map (\<lambda>a. additiveLimb (ModuliChain (RingQ params) ! l) quorum a
                      ((evalLimb (ModuliChain (RingQ params) ! l) (map (\<lambda>p. Q p ! l ! n) ps1) a
                        + evalLimb (ModuliChain (RingQ params) ! l) (map (\<lambda>p. Q p ! l ! n) ps2) a)
                       mod ModuliChain (RingQ params) ! l)) quorum))
                (\<lambda>l n. sumLimb (chainP params ! l)
                   (map (\<lambda>a. additiveLimb (chainP params ! l) quorum a
                      ((evalLimb (chainP params ! l) (map (\<lambda>p. P p ! l ! n) ps1) a
                        + evalLimb (chainP params ! l) (map (\<lambda>p. P p ! l ! n) ps2) a)
                       mod chainP params ! l)) quorum)))"
    by (rule sumShares_mk)
  finally show ?thesis using ps1 ps2 t by (intro exI [of _ ps1] exI [of _ ps2]) auto
qed

lemma peval_map2_add:
  "length xs = length ys \<Longrightarrow>
   peval (map int (map2 (+) xs ys)) z = peval (map int xs) z + peval (map int ys) z"
  by (induction xs ys rule: list_induct2) (simp_all add: algebra_simps)

lemma aggregate_limb:
  assumes q: "is_prime q" "odd q" "distinct (map (\<lambda>a. unat a mod q) quorum)"
    and ne: "quorum \<noteq> []"
    and len: "length cs1 = length quorum" "length cs2 = length quorum"
  shows "sumLimb q (map (\<lambda>a. additiveLimb q quorum a ((evalLimb q cs1 a + evalLimb q cs2 a) mod q)) quorum)
         = (hd cs1 + hd cs2) mod q"
proof -
  have n: "cs1 \<noteq> []" "cs2 \<noteq> []" using ne len by auto
  have l: "length cs1 = length cs2" using len by simp
  have "sumLimb q (map (\<lambda>a. additiveLimb q quorum a ((evalLimb q cs1 a + evalLimb q cs2 a) mod q)) quorum)
        = hd (map2 (+) cs1 cs2) mod q"
  proof (rule reconstruct_limb [OF q ne])
    show "length (map2 (+) cs1 cs2) \<le> length quorum" "map2 (+) cs1 cs2 \<noteq> []"
      using n len by (simp_all add: zip_eq_Nil_iff)
    show "eqm q (int ((evalLimb q cs1 a + evalLimb q cs2 a) mod q))
            (peval (map int (map2 (+) cs1 cs2)) (node a))" for a
    proof -
      have "eqm q (int ((evalLimb q cs1 a + evalLimb q cs2 a) mod q))
              (int (evalLimb q cs1 a + evalLimb q cs2 a))"
        by (rule eqm_mod)
      also have "int (evalLimb q cs1 a + evalLimb q cs2 a)
                 = int (evalLimb q cs1 a) + int (evalLimb q cs2 a)" by simp
      also have "eqm q (int (evalLimb q cs1 a) + int (evalLimb q cs2 a))
                   (peval (map int cs1) (node a) + peval (map int cs2) (node a))"
        by (intro eqm_add evalLimb_eqm n)
      finally show ?thesis by (simp only: peval_map2_add [OF l])
    qed
  qed
  moreover have "hd (map2 (+) cs1 cs2) = hd cs1 + hd cs2"
    using n by (cases cs1; cases cs2) simp_all
  ultimately show ?thesis by simp
qed

lemma reconstructAggregated_closed:
  assumes t: "1 \<le> thresh" "int (length quorum) = thresh"
    and wf: "wfPolyQP params secret1" "wfPolyQP params secret2"
    and qs: "list_all (\<lambda>q. is_prime q \<and> odd q \<and> distinct (map (\<lambda>a. unat a mod q) quorum))
               (chainQP params)"
  shows "reconstructAggregated params g1 g2 thresh secret1 secret2 quorum
         = Some (residueSumQP params secret1 secret2)"
proof -
  obtain ps1 ps2 where ps1: "ps1 \<noteq> []" "hd ps1 = secret1" "length ps1 = length quorum"
    and ps2: "ps2 \<noteq> []" "hd ps2 = secret2" "length ps2 = length quorum"
    and rc: "reconstructAggregated params g1 g2 thresh secret1 secret2 quorum
            = Some (mkPolyQP params
                (\<lambda>l n. sumLimb (ModuliChain (RingQ params) ! l)
                   (map (\<lambda>a. additiveLimb (ModuliChain (RingQ params) ! l) quorum a
                      ((evalLimb (ModuliChain (RingQ params) ! l) (map (\<lambda>p. Q p ! l ! n) ps1) a
                        + evalLimb (ModuliChain (RingQ params) ! l) (map (\<lambda>p. Q p ! l ! n) ps2) a)
                       mod ModuliChain (RingQ params) ! l)) quorum))
                (\<lambda>l n. sumLimb (chainP params ! l)
                   (map (\<lambda>a. additiveLimb (chainP params ! l) quorum a
                      ((evalLimb (chainP params ! l) (map (\<lambda>p. P p ! l ! n) ps1) a
                        + evalLimb (chainP params ! l) (map (\<lambda>p. P p ! l ! n) ps2) a)
                       mod chainP params ! l)) quorum)))"
    using reconstructAggregated_sum [OF t wf] by blast
  have ne: "quorum \<noteq> []" using t by auto
  have hd: "hd (map f ps1) = f secret1" "hd (map f ps2) = f secret2" for f :: "PolyQP \<Rightarrow> nat"
    using ps1 ps2 by (simp_all add: hd_map)
  have limb: "sumLimb q (map (\<lambda>a. additiveLimb q quorum a
                  ((evalLimb q (map f ps1) a + evalLimb q (map f ps2) a) mod q)) quorum)
              = (f secret1 + f secret2) mod q"
    if "q \<in> set (chainQP params)" for q and f :: "PolyQP \<Rightarrow> nat"
  proof -
    have q: "is_prime q" "odd q" "distinct (map (\<lambda>a. unat a mod q) quorum)"
      using qs that by (auto simp: list_all_iff)
    have "sumLimb q (map (\<lambda>a. additiveLimb q quorum a
                  ((evalLimb q (map f ps1) a + evalLimb q (map f ps2) a) mod q)) quorum)
          = (hd (map f ps1) + hd (map f ps2)) mod q"
      by (rule aggregate_limb [OF q ne]) (simp_all add: ps1 ps2)
    then show ?thesis by (simp only: hd)
  qed
  show ?thesis
    unfolding rc residueSumQP_def option.inject
  proof (rule mkPolyQP_cong)
    fix l n assume "l < length (ModuliChain (RingQ params))"
    then have "ModuliChain (RingQ params) ! l \<in> set (chainQP params)"
      by (rule chain_member)
    then show "sumLimb (ModuliChain (RingQ params) ! l)
                   (map (\<lambda>a. additiveLimb (ModuliChain (RingQ params) ! l) quorum a
                      ((evalLimb (ModuliChain (RingQ params) ! l) (map (\<lambda>p. Q p ! l ! n) ps1) a
                        + evalLimb (ModuliChain (RingQ params) ! l) (map (\<lambda>p. Q p ! l ! n) ps2) a)
                       mod ModuliChain (RingQ params) ! l)) quorum)
               = (Q secret1 ! l ! n + Q secret2 ! l ! n) mod ModuliChain (RingQ params) ! l"
      by (rule limb)
  next
    fix rp l n assume "RingP params = Some rp" "l < length (ModuliChain rp)"
    then have "chainP params ! l \<in> set (chainQP params)"
      by (rule chain_member)
    then show "sumLimb (chainP params ! l)
                   (map (\<lambda>a. additiveLimb (chainP params ! l) quorum a
                      ((evalLimb (chainP params ! l) (map (\<lambda>p. P p ! l ! n) ps1) a
                        + evalLimb (chainP params ! l) (map (\<lambda>p. P p ! l ! n) ps2) a)
                       mod chainP params ! l)) quorum)
               = (P secret1 ! l ! n + P secret2 ! l ! n) mod chainP params ! l"
      by (rule limb)
  qed
qed

lemma ringqp_Add_wf:
  assumes wf: "wfPolyQP r s1" "wfPolyQP r s2"
  shows "ringqp_Add r s1 s2 (ringqp_NewPoly r) = Some (residueSumQP r s1 s2)"
proof -
  have q: "Q s1 = mkPoly (RingQ r) (\<lambda>l n. Q s1 ! l ! n)" "Q s2 = mkPoly (RingQ r) (\<lambda>l n. Q s2 ! l ! n)"
    using wf by (simp_all add: wfPolyQP_def wfPoly_eq_mkPoly [symmetric])
  have "ring_Add (RingQ r) (mkPoly (RingQ r) (\<lambda>l n. Q s1 ! l ! n)) (mkPoly (RingQ r) (\<lambda>l n. Q s2 ! l ! n))
           (mkPoly (RingQ r) (\<lambda>l n. 0))
        = Some (mkPoly (RingQ r) (\<lambda>l n. (Q s1 ! l ! n + Q s2 ! l ! n) mod ModuliChain (RingQ r) ! l))"
    by (rule ring_Add_mk)
  then have aq: "ring_Add (RingQ r) (Q s1) (Q s2) (ring_NewPoly (RingQ r))
        = Some (mkPoly (RingQ r) (\<lambda>l n. (Q s1 ! l ! n + Q s2 ! l ! n) mod ModuliChain (RingQ r) ! l))"
    by (simp only: q [symmetric] ring_NewPoly_mk)
  have ap: "ring_Add rp (P s1) (P s2) (ring_NewPoly rp)
        = Some (mkPoly rp (\<lambda>l n. (P s1 ! l ! n + P s2 ! l ! n) mod ModuliChain rp ! l))"
    if rp: "RingP r = Some rp" for rp
  proof -
    have p: "P s1 = mkPoly rp (\<lambda>l n. P s1 ! l ! n)" "P s2 = mkPoly rp (\<lambda>l n. P s2 ! l ! n)"
      using wf rp by (simp_all add: wfPolyQP_def wfPoly_eq_mkPoly [symmetric])
    have "ring_Add rp (mkPoly rp (\<lambda>l n. P s1 ! l ! n)) (mkPoly rp (\<lambda>l n. P s2 ! l ! n))
             (mkPoly rp (\<lambda>l n. 0))
          = Some (mkPoly rp (\<lambda>l n. (P s1 ! l ! n + P s2 ! l ! n) mod ModuliChain rp ! l))"
      by (rule ring_Add_mk)
    then show ?thesis by (simp only: p [symmetric] ring_NewPoly_mk)
  qed
  show ?thesis
    by (simp add: ringqp_Add_def ringqp_NewPoly_def aq ap residueSumQP_def mkPolyQP_def chainP_def
        split: option.split)
qed

text \<open>
  Claim C8, amended. Two dealers share the secrets \<open>s1\<close> and \<open>s2\<close> with Shamir
  polynomials of the same threshold \<open>t \<ge> 1\<close>, sampled from generators of their own.
  Every member of a quorum of exactly \<open>t\<close> identities aggregates the two shares it
  received with \<open>AggregateShares\<close> and combines the aggregate with a \<open>Combiner\<close> built
  over the quorum. When every modulus of the chain is an odd prime and the identities of
  the quorum are pairwise distinct modulo every modulus of the chain, the additive
  shares sum to \<open>s1 + s2\<close> modulo the chain, which is what the addition of the ring
  gives for \<open>s1\<close> and \<open>s2\<close>.
\<close>

theorem aggregation_linearity:
  assumes "1 \<le> thresh" "int (length quorum) = thresh"
    and "wfPolyQP params secret1" "wfPolyQP params secret2"
    and "list_all (\<lambda>q. is_prime q \<and> odd q \<and> distinct (map (\<lambda>a. unat a mod q) quorum))
           (chainQP params)"
  shows "reconstructAggregated params g1 g2 thresh secret1 secret2 quorum
           = Some (residueSumQP params secret1 secret2)
         \<and> ringqp_Add params secret1 secret2 (ringqp_NewPoly params)
           = Some (residueSumQP params secret1 secret2)"
  using assms by (simp add: reconstructAggregated_closed ringqp_Add_wf)

theorem aggregation_linearity_witness:
  "reconstructAggregated exParams exPRNG (exPRNG\<lparr>pos := 50\<rparr>) 2
     \<lparr>Q = [[3, 2], [5, 4]], P = [[5, 6]]\<rparr> \<lparr>Q = [[6, 3], [11, 5]], P = [[8, 7]]\<rparr> [2, 3]
   = Some \<lparr>Q = [[2, 5], [3, 9]], P = [[2, 2]]\<rparr>"
proof -
  have h: "list_all (\<lambda>q. is_prime q \<and> odd q \<and> distinct (map (\<lambda>a. unat a mod q) [2, 3 :: 64 word]))
             (chainQP exParams)"
    by (simp add: chainQP_exParams is_prime_ex)
  have w: "wfPolyQP exParams \<lparr>Q = [[3, 2], [5, 4]], P = [[5, 6]]\<rparr>"
    "wfPolyQP exParams \<lparr>Q = [[6, 3], [11, 5]], P = [[8, 7]]\<rparr>"
    by (simp_all add: wfPolyQP_def wfPoly_def exParams_def)
  have t: "(1 :: int) \<le> 2" "int (length [2, 3 :: 64 word]) = 2" by simp_all
  have s: "residueSumQP exParams \<lparr>Q = [[3, 2], [5, 4]], P = [[5, 6]]\<rparr>
             \<lparr>Q = [[6, 3], [11, 5]], P = [[8, 7]]\<rparr>
           = \<lparr>Q = [[2, 5], [3, 9]], P = [[2, 2]]\<rparr>"
    by (simp add: residueSumQP_def mkPolyQP_def mkPoly_def chainP_def exParams_def upt_small)
  show ?thesis
    using aggregation_linearity [OF t w h, of exPRNG "exPRNG\<lparr>pos := 50\<rparr>"]
    unfolding s by (rule conjunct1)
qed

text \<open>
  The identities 3 and 10 are distinct and agree modulo 7: over the chain \<open>[7]\<close> the
  additive shares of the quorum \<open>[3, 10]\<close> sum to zero, not to \<open>s1 + s2\<close>.
\<close>

theorem aggregation_collision_counterexample:
  "distinct [3, 10 :: 64 word]
   \<and> reconstructAggregated exParams1 exPRNG (exPRNG\<lparr>pos := 50\<rparr>) 2
        \<lparr>Q = [[3, 2]], P = []\<rparr> \<lparr>Q = [[2, 3]], P = []\<rparr> [3, 10]
      = Some \<lparr>Q = [[0, 0]], P = []\<rparr>
   \<and> residueSumQP exParams1 \<lparr>Q = [[3, 2]], P = []\<rparr> \<lparr>Q = [[2, 3]], P = []\<rparr>
      = \<lparr>Q = [[5, 5]], P = []\<rparr>"
proof -
  have wf: "wfPolyQP exParams1 \<lparr>Q = [[3, 2]], P = []\<rparr>" "wfPolyQP exParams1 \<lparr>Q = [[2, 3]], P = []\<rparr>"
    by (simp_all add: wfPolyQP_def wfPoly_def exParams1_def)
  have t: "(1 :: int) \<le> 2" "int (length [3, 10 :: 64 word]) = 2" by simp_all
  obtain ps1 ps2 :: "PolyQP list"
    where rc: "reconstructAggregated exParams1 exPRNG (exPRNG\<lparr>pos := 50\<rparr>) 2
                 \<lparr>Q = [[3, 2]], P = []\<rparr> \<lparr>Q = [[2, 3]], P = []\<rparr> [3, 10]
            = Some (mkPolyQP exParams1
                (\<lambda>l n. sumLimb (ModuliChain (RingQ exParams1) ! l)
                   (map (\<lambda>a. additiveLimb (ModuliChain (RingQ exParams1) ! l) [3, 10] a
                      ((evalLimb (ModuliChain (RingQ exParams1) ! l) (map (\<lambda>p. Q p ! l ! n) ps1) a
                        + evalLimb (ModuliChain (RingQ exParams1) ! l) (map (\<lambda>p. Q p ! l ! n) ps2) a)
                       mod ModuliChain (RingQ exParams1) ! l)) [3, 10]))
                (\<lambda>l n. sumLimb (chainP exParams1 ! l)
                   (map (\<lambda>a. additiveLimb (chainP exParams1 ! l) [3, 10] a
                      ((evalLimb (chainP exParams1 ! l) (map (\<lambda>p. P p ! l ! n) ps1) a
                        + evalLimb (chainP exParams1 ! l) (map (\<lambda>p. P p ! l ! n) ps2) a)
                       mod chainP exParams1 ! l)) [3, 10])))"
    using reconstructAggregated_sum [OF t wf] by blast
  show ?thesis
    unfolding rc
    by (simp add: residueSumQP_def mkPolyQP_def mkPoly_def exParams1_def upt_small sumLimb_def
        additiveLimb_collision)
qed

subsection \<open>Serialization of a share\<close>

lemma length_le_bytes: "length (le_bytes k n) = k"
  by (induction k arbitrary: n) simp_all

lemma le_value_le_bytes: "le_value (le_bytes k n) = n mod 256 ^ k"
proof (induction k arbitrary: n)
  case 0
  then show ?case by simp
next
  case (Suc k)
  have "unat (of_nat (n mod 256) :: byte) = n mod 256"
    by (simp add: unat_of_nat)
  then have "le_value (le_bytes (Suc k) n) = n mod 256 + 256 * (n div 256 mod 256 ^ k)"
    by (simp add: Suc)
  also have "\<dots> = n mod (256 * 256 ^ k)" by (simp add: mod_mult2_eq)
  finally show ?case by simp
qed

lemma length_writeUint64: "length (writeUint64 n) = 8"
  by (simp add: writeUint64_def length_le_bytes)

lemma readUint64_writeUint64:
  "n < 2 ^ 64 \<Longrightarrow> readUint64 (writeUint64 n @ r) = Some (n, r)"
proof -
  assume n: "n < 2 ^ 64"
  have "(256 :: nat) ^ 8 = 2 ^ 64" by simp
  then have "le_value (writeUint64 n) = n"
    using n by (simp add: writeUint64_def le_value_le_bytes)
  then show ?thesis by (simp add: readUint64_def length_writeUint64)
qed

lemma readUint64_length: "readUint64 bs = Some (n, r) \<Longrightarrow> length bs = 8 + length r"
  by (auto simp: readUint64_def split: if_splits)

lemma readMany_write:
  assumes "\<And>x r. x \<in> set xs \<Longrightarrow> rd (wr x @ r) = Some (x, r)"
  shows "readMany rd (length xs) (concat (map wr xs) @ r) = Some (xs, r)"
  using assms by (induction xs) simp_all

lemma readVector_writeVector:
  assumes "length xs < 2 ^ 64" "\<And>x r. x \<in> set xs \<Longrightarrow> rd (wr x @ r) = Some (x, r)"
  shows "readVector rd (writeVector wr xs @ r) = Some (xs, r)"
  using assms by (simp add: readVector_def writeVector_def readUint64_writeUint64 readMany_write)

lemma readMany_length:
  assumes "\<And>bs x r. rd bs = Some (x, r) \<Longrightarrow> length bs = sz x + length r"
  shows "readMany rd n bs = Some (xs, r) \<Longrightarrow> length bs = sum_list (map sz xs) + length r"
proof (induction n arbitrary: bs xs)
  case 0
  then show ?case by simp
next
  case (Suc n)
  from Suc.prems obtain x bs' ys where x: "rd bs = Some (x, bs')"
    and ys: "readMany rd n bs' = Some (ys, r)" and xs: "xs = x # ys"
    by (auto split: option.splits)
  show ?case using assms [OF x] Suc.IH [OF ys] by (simp add: xs)
qed

lemma readVector_length:
  assumes "\<And>bs x r. rd bs = Some (x, r) \<Longrightarrow> length bs = sz x + length r"
    and "readVector rd bs = Some (xs, r)"
  shows "length bs = 8 + sum_list (map sz xs) + length r"
proof -
  from assms(2) obtain n bs' where h: "readUint64 bs = Some (n, bs')"
    and m: "readMany rd n bs' = Some (xs, r)"
    by (auto simp: readVector_def split: option.splits)
  show ?thesis
    using readUint64_length [OF h] readMany_length [of rd sz, OF assms(1) m] by simp
qed

lemma length_writeVector:
  "length (writeVector wr xs) = 8 + sum_list (map (\<lambda>x. length (wr x)) xs)"
  by (simp add: writeVector_def length_writeUint64 length_concat comp_def)

lemma length_ring_Poly_encode: "length (ring_Poly_encode p) = ring_Poly_BinarySize p"
  by (simp add: ring_Poly_encode_def ring_Poly_BinarySize_def length_writeVector length_writeUint64
      sum_list_triv mult.commute)

lemma ring_Poly_decode_encode:
  assumes "uint64Poly p"
  shows "ring_Poly_decode (ring_Poly_encode p @ r) = Some (p, r)"
  unfolding ring_Poly_decode_def ring_Poly_encode_def
proof (rule readVector_writeVector)
  show "length p < 2 ^ 64" using assms by (simp add: uint64Poly_def)
next
  fix v r assume v: "v \<in> set p"
  show "readVector readUint64 (writeVector writeUint64 v @ r) = Some (v, r)"
  proof (rule readVector_writeVector)
    show "length v < 2 ^ 64" using assms v by (simp add: uint64Poly_def list_all_iff)
  next
    fix c r assume "c \<in> set v"
    then have "c < 2 ^ 64" using assms v by (simp add: uint64Poly_def list_all_iff)
    then show "readUint64 (writeUint64 c @ r) = Some (c, r)" by (rule readUint64_writeUint64)
  qed
qed

lemma ring_Poly_decode_length:
  assumes "ring_Poly_decode bs = Some (p, r)"
  shows "length bs = ring_Poly_BinarySize p + length r"
proof -
  have v: "length bs = (8 + 8 * length v) + length r"
    if "readVector readUint64 bs = Some (v, r)" for bs v r
    using readVector_length [of readUint64 "\<lambda>c. 8", OF _ that]
    by (simp add: readUint64_length sum_list_triv)
  show ?thesis
    using readVector_length [of "readVector readUint64" "\<lambda>v. 8 + 8 * length v", OF v]
      assms
    by (simp add: ring_Poly_decode_def ring_Poly_BinarySize_def)
qed

lemma UnmarshalBinary_MarshalBinary:
  assumes "uint64PolyQP s"
  shows "UnmarshalBinary (MarshalBinary s) = Some s"
proof -
  have "ring_Poly_decode (ring_Poly_encode (Q s) @ ring_Poly_encode (P s))
        = Some (Q s, ring_Poly_encode (P s))"
    using assms by (intro ring_Poly_decode_encode) (simp add: uint64PolyQP_def)
  moreover have "ring_Poly_decode (ring_Poly_encode (P s) @ []) = Some (P s, [])"
    using assms by (intro ring_Poly_decode_encode) (simp add: uint64PolyQP_def)
  ultimately show ?thesis
    by (simp add: UnmarshalBinary_def MarshalBinary_def ringqp_Poly_UnmarshalBinary_def
        ringqp_Poly_ReadFrom_def ringqp_Poly_MarshalBinary_def)
qed

lemma UnmarshalBinary_length:
  assumes "UnmarshalBinary bs = Some s"
  shows "length bs = BinarySize s"
proof -
  from assms obtain q r' p where q: "ring_Poly_decode bs = Some (q, r')"
    and p: "ring_Poly_decode r' = Some (p, [])" and s: "s = \<lparr>Q = q, P = p\<rparr>"
    by (auto simp: UnmarshalBinary_def ringqp_Poly_UnmarshalBinary_def ringqp_Poly_ReadFrom_def
        split: option.splits if_splits)
  show ?thesis
    using ring_Poly_decode_length [OF q] ring_Poly_decode_length [OF p]
    by (simp add: BinarySize_def ringqp_Poly_BinarySize_def s)
qed

lemma readUint64_append:
  "readUint64 bs = Some (n, r) \<Longrightarrow> readUint64 (bs @ e) = Some (n, r @ e)"
  by (auto simp: readUint64_def split: if_splits)

lemma readMany_append:
  assumes "\<And>bs x r. rd bs = Some (x, r) \<Longrightarrow> rd (bs @ e) = Some (x, r @ e)"
  shows "readMany rd n bs = Some (xs, r) \<Longrightarrow> readMany rd n (bs @ e) = Some (xs, r @ e)"
proof (induction n arbitrary: bs xs)
  case 0
  then show ?case by simp
next
  case (Suc n)
  from Suc.prems obtain x bs' ys where x: "rd bs = Some (x, bs')"
    and ys: "readMany rd n bs' = Some (ys, r)" and xs: "xs = x # ys"
    by (auto split: option.splits)
  show ?case using assms [OF x] Suc.IH [OF ys] by (simp add: xs)
qed

lemma readVector_append:
  assumes "\<And>bs x r. rd bs = Some (x, r) \<Longrightarrow> rd (bs @ e) = Some (x, r @ e)"
    and "readVector rd bs = Some (xs, r)"
  shows "readVector rd (bs @ e) = Some (xs, r @ e)"
proof -
  from assms(2) obtain n bs' where h: "readUint64 bs = Some (n, bs')"
    and m: "readMany rd n bs' = Some (xs, r)"
    by (auto simp: readVector_def split: option.splits)
  show ?thesis
    using readUint64_append [OF h] readMany_append [of rd e, OF assms(1) m]
    by (simp add: readVector_def)
qed

lemma ring_Poly_decode_append:
  assumes "ring_Poly_decode bs = Some (p, r)"
  shows "ring_Poly_decode (bs @ e) = Some (p, r @ e)"
  using assms unfolding ring_Poly_decode_def
  by (intro readVector_append [where rd = "readVector readUint64"]
        readVector_append [where rd = readUint64] readUint64_append)

lemma ringqp_Poly_ReadFrom_append:
  assumes "ringqp_Poly_ReadFrom bs = Some (s, n, r)"
  shows "ringqp_Poly_ReadFrom (bs @ e) = Some (s, n, r @ e)"
proof -
  from assms obtain q r' where q: "ring_Poly_decode bs = Some (q, r')"
    and p: "ring_Poly_decode r' = Some (P s, r)" and s: "s = \<lparr>Q = q, P = P s\<rparr>"
    and n: "n = int (length bs) - int (length r)"
    by (auto simp: ringqp_Poly_ReadFrom_def split: option.splits)
  show ?thesis
    using ring_Poly_decode_append [OF q, of e] ring_Poly_decode_append [OF p, of e] s n
    by (simp add: ringqp_Poly_ReadFrom_def)
qed

lemma ringqp_Poly_ReadFrom_MarshalBinary:
  assumes "uint64PolyQP s"
  shows "ringqp_Poly_ReadFrom (ringqp_Poly_MarshalBinary s @ e)
         = Some (s, int (ringqp_Poly_BinarySize s), e)"
proof -
  have "ring_Poly_decode (ring_Poly_encode (Q s) @ ring_Poly_encode (P s) @ e)
        = Some (Q s, ring_Poly_encode (P s) @ e)"
    using assms by (intro ring_Poly_decode_encode) (simp add: uint64PolyQP_def)
  moreover have "ring_Poly_decode (ring_Poly_encode (P s) @ e) = Some (P s, e)"
    using assms by (intro ring_Poly_decode_encode) (simp add: uint64PolyQP_def)
  ultimately show ?thesis
    by (simp add: ringqp_Poly_ReadFrom_def ringqp_Poly_MarshalBinary_def ringqp_Poly_BinarySize_def
        length_ring_Poly_encode)
qed

lemma UnmarshalBinary_extended:
  assumes "uint64PolyQP s" "e \<noteq> []"
  shows "UnmarshalBinary (MarshalBinary s @ e) = None"
  using assms
  by (simp add: UnmarshalBinary_def MarshalBinary_def ringqp_Poly_UnmarshalBinary_def
      ringqp_Poly_ReadFrom_MarshalBinary)

lemma UnmarshalBinary_truncated:
  assumes u: "uint64PolyQP s" and k: "k < BinarySize s"
  shows "UnmarshalBinary (take k (MarshalBinary s)) = None"
proof (rule ccontr)
  assume "UnmarshalBinary (take k (MarshalBinary s)) \<noteq> None"
  then obtain s' n where r: "ringqp_Poly_ReadFrom (take k (ringqp_Poly_MarshalBinary s)) = Some (s', n, [])"
    by (auto simp: UnmarshalBinary_def MarshalBinary_def ringqp_Poly_UnmarshalBinary_def
        split: option.splits if_splits)
  have "ringqp_Poly_ReadFrom (take k (ringqp_Poly_MarshalBinary s) @ drop k (ringqp_Poly_MarshalBinary s))
        = Some (s', n, [] @ drop k (ringqp_Poly_MarshalBinary s))"
    by (rule ringqp_Poly_ReadFrom_append [OF r])
  moreover have "ringqp_Poly_ReadFrom (ringqp_Poly_MarshalBinary s @ [])
        = Some (s, int (ringqp_Poly_BinarySize s), [])"
    by (rule ringqp_Poly_ReadFrom_MarshalBinary [OF u])
  ultimately have "drop k (ringqp_Poly_MarshalBinary s) = []" by simp
  then have "length (ringqp_Poly_MarshalBinary s) \<le> k" by simp
  then show False
    using k by (simp add: BinarySize_def ringqp_Poly_MarshalBinary_def ringqp_Poly_BinarySize_def
        length_ring_Poly_encode)
qed

lemma length_MarshalBinary: "length (MarshalBinary s) = BinarySize s"
  by (simp add: MarshalBinary_def BinarySize_def ringqp_Poly_MarshalBinary_def
      ringqp_Poly_BinarySize_def length_ring_Poly_encode)

text \<open>
  Claim C9. The serialized form of a \<open>ShamirSecretShareQP\<close> is the encoding of its ring
  element and nothing more: \<open>BinarySize\<close>, \<open>MarshalBinary\<close>, \<open>WriteTo\<close>, \<open>ReadFrom\<close> and
  \<open>UnmarshalBinary\<close> are those of the element, \<open>WriteTo\<close> appends exactly \<open>BinarySize\<close>
  bytes to the writer and reports that number, and \<open>MarshalBinary\<close> returns that many
  bytes. \<open>UnmarshalBinary\<close> restores an equal share from the output of \<open>MarshalBinary\<close>.
  Whatever \<open>UnmarshalBinary\<close> accepts has the length of the encoding of the element it
  declares; an encoding cut short or followed by more bytes is rejected.
\<close>

theorem serialization_transparent:
  "BinarySize s = ringqp_Poly_BinarySize s
   \<and> MarshalBinary s = ringqp_Poly_MarshalBinary s
   \<and> WriteTo s w = ringqp_Poly_WriteTo s w
   \<and> ReadFrom bs = ringqp_Poly_ReadFrom bs
   \<and> UnmarshalBinary bs = ringqp_Poly_UnmarshalBinary bs
   \<and> WriteTo s w = (int (BinarySize s), w @ MarshalBinary s)
   \<and> length (MarshalBinary s) = BinarySize s
   \<and> (uint64PolyQP s \<longrightarrow> UnmarshalBinary (MarshalBinary s) = Some s)
   \<and> (UnmarshalBinary bs = Some s' \<longrightarrow> length bs = BinarySize s')
   \<and> (uint64PolyQP s \<and> k < BinarySize s \<longrightarrow> UnmarshalBinary (take k (MarshalBinary s)) = None)
   \<and> (uint64PolyQP s \<and> e \<noteq> [] \<longrightarrow> UnmarshalBinary (MarshalBinary s @ e) = None)"
proof (intro conjI impI)
  show "WriteTo s w = (int (BinarySize s), w @ MarshalBinary s)"
    using length_MarshalBinary [of s]
    by (simp add: WriteTo_def ringqp_Poly_WriteTo_def MarshalBinary_def)
qed (simp_all add: BinarySize_def MarshalBinary_def WriteTo_def ReadFrom_def UnmarshalBinary_def
      length_MarshalBinary [unfolded BinarySize_def MarshalBinary_def]
      UnmarshalBinary_MarshalBinary [unfolded UnmarshalBinary_def MarshalBinary_def]
      UnmarshalBinary_length [unfolded UnmarshalBinary_def BinarySize_def]
      UnmarshalBinary_truncated [unfolded UnmarshalBinary_def BinarySize_def MarshalBinary_def]
      UnmarshalBinary_extended [unfolded UnmarshalBinary_def MarshalBinary_def])

theorem serialization_transparent_witness:
  "uint64PolyQP \<lparr>Q = [[3, 2], [5, 4]], P = [[5, 6]]\<rparr>
   \<and> UnmarshalBinary (MarshalBinary \<lparr>Q = [[3, 2], [5, 4]], P = [[5, 6]]\<rparr>)
       = Some \<lparr>Q = [[3, 2], [5, 4]], P = [[5, 6]]\<rparr>
   \<and> length (MarshalBinary \<lparr>Q = [[3, 2], [5, 4]], P = [[5, 6]]\<rparr>) = 88
   \<and> BinarySize \<lparr>Q = [[3, 2], [5, 4]], P = [[5, 6]]\<rparr> = 88
   \<and> WriteTo \<lparr>Q = [[3, 2], [5, 4]], P = [[5, 6]]\<rparr> []
       = (88, MarshalBinary \<lparr>Q = [[3, 2], [5, 4]], P = [[5, 6]]\<rparr>)
   \<and> UnmarshalBinary (take 87 (MarshalBinary \<lparr>Q = [[3, 2], [5, 4]], P = [[5, 6]]\<rparr>)) = None
   \<and> UnmarshalBinary (MarshalBinary \<lparr>Q = [[3, 2], [5, 4]], P = [[5, 6]]\<rparr> @ [7]) = None"
proof -
  define S where "S = \<lparr>Q = [[3, 2], [5, 4]], P = [[5, 6 :: nat]]\<rparr>"
  have u: "uint64PolyQP S"
    by (simp add: S_def uint64PolyQP_def uint64Poly_def)
  have b: "BinarySize S = 88"
    by (simp add: S_def BinarySize_def ringqp_Poly_BinarySize_def ring_Poly_BinarySize_def)
  have k: "87 < BinarySize S" by (simp add: b)
  have e: "[7 :: byte] \<noteq> []" by simp
  note t = serialization_transparent [where s = S and w = "[]" and bs = "MarshalBinary S"
      and s' = S and k = 87 and e = "[7]"]
  from t u have 1: "UnmarshalBinary (MarshalBinary S) = Some S" by blast
  from t have 2: "length (MarshalBinary S) = BinarySize S" by blast
  from t have 3: "WriteTo S [] = (int (BinarySize S), [] @ MarshalBinary S)" by blast
  from t u k have 4: "UnmarshalBinary (take 87 (MarshalBinary S)) = None" by blast
  from t u e have 5: "UnmarshalBinary (MarshalBinary S @ [7]) = None" by blast
  show ?thesis
    using u 1 2 3 4 5 unfolding S_def [symmetric] by (simp add: b)
qed

end
